theory Spec2Isabelle
  imports Main
begin

unbundle bit_operations_syntax

section \<open>Python built-ins and the random source\<close>

text \<open>
  Python integers are unbounded: they are modelled by \<open>int\<close>. On integers Python's
  \<open>//\<close> and \<open>%\<close> round towards minus infinity, as \<open>div\<close> and \<open>mod\<close> do on \<open>int\<close>.

  The exceptions the four modules raise, one constructor per \<open>raise\<close> (or raising
  library call) of the sources.
\<close>

datatype error =
    NoModularInverse       \<comment> \<open>\<open>raise Exception('Modular inverse does not exist')\<close>\<close>
  | EmptyRange             \<comment> \<open>\<open>ValueError\<close> of \<open>random.randint(a, b)\<close> with \<open>b < a\<close>\<close>
  | HashTooLarge           \<comment> \<open>\<open>ValueError\<close> of the RSA \<open>sign\<close>\<close>
  | CharTooLarge           \<comment> \<open>\<open>ValueError\<close> of \<open>encrypt_rsa\<close> and \<open>encrypt_elgamal\<close>\<close>
  | DecryptFailed          \<comment> \<open>\<open>ValueError\<close> of \<open>decrypt_rsa\<close> and \<open>decrypt_elgamal\<close>\<close>
  | ChrRange               \<comment> \<open>\<open>ValueError\<close> of \<open>chr(i)\<close> with \<open>i\<close> outside \<open>range(0x110000)\<close>\<close>

text \<open>
  The three-argument built-in \<open>pow(b, e, m)\<close>, for the exponents \<open>e \<ge> 0\<close> and moduli
  \<open>m \<noteq> 0\<close> the modules call it with.
\<close>

definition pow3 :: "int \<Rightarrow> int \<Rightarrow> int \<Rightarrow> int" where
  "pow3 b e m = b ^ nat e mod m"

text \<open>
  A run of a randomised function is determined by the values its calls of the \<open>random\<close>
  module return. A run takes the list of these values, in the order of the calls, and
  yields the result (or the exception raised) and the values not yet consumed. \<open>None\<close>
  means that the list is not the trace of a finished run: it ends while a loop is still
  drawing, or it holds a value the call could not have returned.
\<close>

type_synonym 'a run = "((error + 'a) \<times> int list) option"

definition rreturn :: "'a \<Rightarrow> int list \<Rightarrow> 'a run" where
  "rreturn a ds = Some (Inr a, ds)"

definition rbind :: "(int list \<Rightarrow> 'a run) \<Rightarrow> ('a \<Rightarrow> int list \<Rightarrow> 'b run) \<Rightarrow> int list \<Rightarrow> 'b run" where
  "rbind m f ds =
     (case m ds of
        None \<Rightarrow> None
      | Some (Inl e, ds') \<Rightarrow> Some (Inl e, ds')
      | Some (Inr a, ds') \<Rightarrow> f a ds')"

definition randint :: "int \<Rightarrow> int \<Rightarrow> int list \<Rightarrow> int run" where
  "randint a b ds =
     (if b < a then Some (Inl EmptyRange, ds)
      else case ds of
             [] \<Rightarrow> None
           | d # ds' \<Rightarrow> if a \<le> d \<and> d \<le> b then Some (Inr d, ds') else None)"

definition randrange :: "int \<Rightarrow> int \<Rightarrow> int list \<Rightarrow> int run" where
  "randrange a b ds = randint a (b - 1) ds"

text \<open>\<open>random.getrandbits(k)\<close> for \<open>k \<ge> 0\<close>: a value below \<open>2 ^ k\<close>.\<close>

definition getrandbits :: "int \<Rightarrow> int list \<Rightarrow> int run" where
  "getrandbits k ds =
     (case ds of
        [] \<Rightarrow> None
      | d # ds' \<Rightarrow> if 0 \<le> d \<and> d < 2 ^ nat k then Some (Inr d, ds') else None)"

section \<open>Modular arithmetic\<close>

text \<open>\<open>gcd\<close> of RSAsignature.py and Elgamelsignature.py: \<open>while b: a, b = b, a % b\<close>.\<close>

function gcd_loop :: "int \<Rightarrow> int \<Rightarrow> int" where
  "gcd_loop a b = (if b \<noteq> 0 then gcd_loop b (a mod b) else a)"
  by pat_completeness auto
termination
  by (relation "measure (\<lambda>(a, b). nat \<bar>b\<bar>)") (auto simp: abs_mod_less)

text \<open>\<open>extended_gcd\<close>, the same recursive text in all four modules.\<close>

function extended_gcd :: "int \<Rightarrow> int \<Rightarrow> int \<times> int \<times> int" where
  "extended_gcd a b =
     (if a = 0 then (b, 0, 1)
      else (case extended_gcd (b mod a) a of
              (g, x1, y1) \<Rightarrow> (g, y1 - (b div a) * x1, x1)))"
  by pat_completeness auto
termination
  by (relation "measure (\<lambda>(a, b). nat \<bar>a\<bar>)") (auto simp: abs_mod_less)



text \<open>\<open>mod_inverse\<close> of RSAsignature.py and of rsa (1).py: \<open>x % phi\<close>.\<close>

definition mod_inverse_rsa :: "int \<Rightarrow> int \<Rightarrow> error + int" where
  "mod_inverse_rsa e phi =
     (case extended_gcd e phi of
        (g, x, _) \<Rightarrow> if g \<noteq> 1 then Inl NoModularInverse else Inr (x mod phi))"

text \<open>\<open>mod_pow\<close> of gamel.py: square and multiply, reducing after every product.\<close>

function mod_pow_loop :: "int \<Rightarrow> int \<Rightarrow> int \<Rightarrow> int \<Rightarrow> int" where
  "mod_pow_loop result base exponent modulus =
     (if exponent > 0
      then mod_pow_loop (if exponent mod 2 = 1 then (result * base) mod modulus else result)
             ((base * base) mod modulus) (exponent div 2) modulus
      else result)"
  by pat_completeness auto
termination
  by (relation "measure (\<lambda>(r, b, e, m). nat e)") auto

definition mod_pow :: "int \<Rightarrow> int \<Rightarrow> int \<Rightarrow> int" where
  "mod_pow base exponent modulus =
     (if modulus = 1 then 0 else mod_pow_loop 1 (base mod modulus) exponent modulus)"

section \<open>Primality\<close>

text \<open>
  What the sources call a prime number: the reference notion the theorems below compare
  the probabilistic test with. It is also the model of \<open>sympy.isprime\<close>, the library
  test that rsa (1).py imports, which is exact on the numbers that module draws.
\<close>

definition prime :: "int \<Rightarrow> bool" where
  "prime p \<longleftrightarrow> 1 < p \<and> (\<forall>d\<in>{2..p - 1}. \<not> d dvd p)"

section \<open>Miller-Rabin\<close>

text \<open>
  \<open>while d % 2 == 0: d //= 2; r += 1\<close>. The loop does not end on \<open>d = 0\<close>, so not
  returning is a value of the model.
\<close>

partial_function (option) two_adic :: "int \<Rightarrow> int \<Rightarrow> (int \<times> int) option" where
  "two_adic d r = (if d mod 2 = 0 then two_adic (d div 2) (r + 1) else Some (d, r))"

text \<open>
  The inner \<open>for _ in range(r - 1)\<close> with its \<open>else\<close>: \<open>True\<close> when the loop left by
  \<open>break\<close>, \<open>False\<close> when it ran to its end (the \<open>else\<close> branch, \<open>return False\<close>).
\<close>

fun squarings :: "nat \<Rightarrow> int \<Rightarrow> int \<Rightarrow> bool" where
  "squarings 0 x n = False"
| "squarings (Suc j) x n =
     (let x' = pow3 x 2 n in if x' = n - 1 then True else squarings j x' n)"

text \<open>The outer \<open>for _ in range(k)\<close>, the same text in the three modules.\<close>

fun rounds :: "nat \<Rightarrow> int \<Rightarrow> int \<Rightarrow> int \<Rightarrow> int list \<Rightarrow> bool run" where
  "rounds 0 n d r ds = rreturn True ds"
| "rounds (Suc k) n d r ds =
     rbind (randint 2 (n - 2)) (\<lambda>a.
       let x = pow3 a d n in
       if x = 1 \<or> x = n - 1 then rounds k n d r
       else if squarings (nat (r - 1)) x n then rounds k n d r
       else rreturn False) ds"

text \<open>\<open>is_prime\<close> of RSAsignature.py and Elgamelsignature.py (the same text).\<close>

definition is_prime_sig :: "int \<Rightarrow> int \<Rightarrow> int list \<Rightarrow> bool run" where
  "is_prime_sig n k ds =
     (if n \<le> 1 \<or> n = 4 then rreturn False ds
      else if n \<le> 3 then rreturn True ds
      else case two_adic (n - 1) 0 of
             None \<Rightarrow> None
           | Some (d, r) \<Rightarrow> rounds (nat k) n d r ds)"

text \<open>\<open>ElGamalCrypto.is_prime\<close> of gamel.py.\<close>

definition is_prime_gamel :: "int \<Rightarrow> int \<Rightarrow> int list \<Rightarrow> bool run" where
  "is_prime_gamel n k ds =
     (if n < 2 then rreturn False ds
      else if n = 2 \<or> n = 3 then rreturn True ds
      else if n mod 2 = 0 then rreturn False ds
      else case two_adic (n - 1) 0 of
             None \<Rightarrow> None
           | Some (d, r) \<Rightarrow> rounds (nat k) n d r ds)"

section \<open>Prime generation\<close>

text \<open>
  The three generators are \<open>while True\<close> loops that leave by \<open>return\<close> only: a run that
  never draws an accepted candidate does not return.

  \<open>generate_prime(min_val, max_val)\<close> of Elgamelsignature.py; \<open>is_prime\<close> is called with
  its default \<open>k = 5\<close>.
\<close>

partial_function (option) generate_prime_sig :: "int \<Rightarrow> int \<Rightarrow> int list \<Rightarrow> int run" where
  "generate_prime_sig min_val max_val ds =
     (case randint min_val max_val ds of
        None \<Rightarrow> None
      | Some (Inl err, ds1) \<Rightarrow> Some (Inl err, ds1)
      | Some (Inr p0, ds1) \<Rightarrow>
          (let p = (if p0 mod 2 = 0 then p0 + 1 else p0) in
           case is_prime_sig p 5 ds1 of
             None \<Rightarrow> None
           | Some (Inl err, ds2) \<Rightarrow> Some (Inl err, ds2)
           | Some (Inr b, ds2) \<Rightarrow>
               if b then Some (Inr p, ds2) else generate_prime_sig min_val max_val ds2))"

text \<open>\<open>ElGamalCrypto.generate_prime(min_val, max_val)\<close> of gamel.py.\<close>

partial_function (option) generate_prime_gamel :: "int \<Rightarrow> int \<Rightarrow> int list \<Rightarrow> int run" where
  "generate_prime_gamel min_val max_val ds =
     (case randint min_val max_val ds of
        None \<Rightarrow> None
      | Some (Inl err, ds1) \<Rightarrow> Some (Inl err, ds1)
      | Some (Inr c0, ds1) \<Rightarrow>
          (let candidate = (if c0 mod 2 = 0 then c0 + 1 else c0) in
           case is_prime_gamel candidate 5 ds1 of
             None \<Rightarrow> None
           | Some (Inl err, ds2) \<Rightarrow> Some (Inl err, ds2)
           | Some (Inr b, ds2) \<Rightarrow>
               if b then Some (Inr candidate, ds2)
               else generate_prime_gamel min_val max_val ds2))"

text \<open>\<open>generate_prime(bits)\<close> of RSAsignature.py: \<open>p = random.getrandbits(bits); p |= 1\<close>.\<close>

partial_function (option) generate_prime_bits :: "int \<Rightarrow> int list \<Rightarrow> int run" where
  "generate_prime_bits bits ds =
     (case getrandbits bits ds of
        None \<Rightarrow> None
      | Some (Inl err, ds1) \<Rightarrow> Some (Inl err, ds1)
      | Some (Inr p0, ds1) \<Rightarrow>
          (let p = p0 OR 1 in
           case is_prime_sig p 5 ds1 of
             None \<Rightarrow> None
           | Some (Inl err, ds2) \<Rightarrow> Some (Inl err, ds2)
           | Some (Inr b, ds2) \<Rightarrow>
               if b then Some (Inr p, ds2) else generate_prime_bits bits ds2))"

text \<open>\<open>generate_large_prime(start, end)\<close> of rsa (1).py, with \<open>sympy.isprime\<close>.\<close>

partial_function (option) generate_large_prime :: "int \<Rightarrow> int \<Rightarrow> int list \<Rightarrow> int run" where
  "generate_large_prime start end ds =
     (case randint start end ds of
        None \<Rightarrow> None
      | Some (Inl err, ds1) \<Rightarrow> Some (Inl err, ds1)
      | Some (Inr num, ds1) \<Rightarrow>
          if prime num then Some (Inr num, ds1) else generate_large_prime start end ds1)"

section \<open>Prime factors and generators\<close>

text \<open>
  \<open>prime_factors\<close>, the same text in gamel.py and Elgamelsignature.py. The inner loop
  \<open>while n % i == 0\<close> and the outer loop \<open>while i * i <= n\<close>, each with the variables it
  updates.
\<close>

partial_function (option) divide_out :: "int \<Rightarrow> int \<Rightarrow> int list \<Rightarrow> (int \<times> int list) option" where
  "divide_out i n factors =
     (if n mod i = 0 then divide_out i (n div i) (factors @ [i]) else Some (n, factors))"

partial_function (option) trial_division :: "int \<Rightarrow> int \<Rightarrow> int list \<Rightarrow> (int \<times> int list) option" where
  "trial_division i n factors =
     (if i * i \<le> n
      then case divide_out i n factors of
             None \<Rightarrow> None
           | Some (n', factors') \<Rightarrow> trial_division (i + 1) n' factors'
      else Some (n, factors))"

text \<open>
  \<open>list(set(factors))\<close> keeps one copy of every element, in an order Python does not
  specify; \<open>remdups\<close> is one such order, and nothing below depends on it.
\<close>

definition prime_factors :: "int \<Rightarrow> int list option" where
  "prime_factors n =
     (case trial_division 2 n [] of
        None \<Rightarrow> None
      | Some (n', factors) \<Rightarrow> Some (remdups (if n' > 1 then factors @ [n'] else factors)))"

text \<open>
  \<open>ElGamalCrypto.find_generator\<close> of gamel.py: the first \<open>g\<close> of \<open>range(2, p)\<close> that no
  prime factor of \<open>p - 1\<close> rejects, and 2 when the scan finds none.
\<close>

definition find_generator_gamel :: "int \<Rightarrow> int option" where
  "find_generator_gamel p =
     (let phi = p - 1 in
      case prime_factors phi of
        None \<Rightarrow> None
      | Some factors \<Rightarrow>
          (case find (\<lambda>g. \<forall>factor\<in>set factors. mod_pow g (phi div factor) p \<noteq> 1) [2..p - 1] of
             Some g \<Rightarrow> Some g
           | None \<Rightarrow> Some 2))"


section \<open>ElGamal signature (Elgamelsignature.py)\<close>

text \<open>The key dictionary \<open>{'p': p, 'g': g, 'y': y, 'x': x}\<close>.\<close>

record elgamal_keys =
  key_p :: int
  key_g :: int
  key_y :: int
  key_x :: int




definition verify_elgamal :: "int \<Rightarrow> int \<times> int \<Rightarrow> elgamal_keys \<Rightarrow> bool" where
  "verify_elgamal hm signature keys =
     (let p = key_p keys; g = key_g keys; y = key_y keys in
      case signature of (r, s) \<Rightarrow>
        if r \<le> 0 \<or> r \<ge> p \<or> s \<le> 0 \<or> s \<ge> p - 1 then False
        else let h = hm mod p;
                 left = pow3 g h p;
                 right = (pow3 y r p * pow3 r s p) mod p
             in left = right)"

section \<open>RSA signature (RSAsignature.py)\<close>

text \<open>The key dictionary \<open>{"public": (e, n), "private": (d, n)}\<close>.\<close>

record rsa_keys =
  public_key :: "int \<times> int"
  private_key :: "int \<times> int"

text \<open>\<open>e = 65537; while gcd(e, phi) != 1: e = random.randrange(2, phi)\<close>.\<close>

partial_function (option) choose_e :: "int \<Rightarrow> int \<Rightarrow> int list \<Rightarrow> int run" where
  "choose_e e phi ds =
     (if gcd_loop e phi \<noteq> 1
      then case randrange 2 phi ds of
             None \<Rightarrow> None
           | Some (Inl err, ds1) \<Rightarrow> Some (Inl err, ds1)
           | Some (Inr e', ds1) \<Rightarrow> choose_e e' phi ds1
      else Some (Inr e, ds))"

definition generate_keypair_rsa :: "int \<Rightarrow> int list \<Rightarrow> rsa_keys run" where
  "generate_keypair_rsa bits =
     rbind (generate_prime_bits (bits div 2)) (\<lambda>p.
       rbind (generate_prime_bits (bits div 2)) (\<lambda>q.
         let n = p * q; phi = (p - 1) * (q - 1) in
         rbind (choose_e 65537 phi) (\<lambda>e ds.
           case mod_inverse_rsa e phi of
             Inl err \<Rightarrow> Some (Inl err, ds)
           | Inr d \<Rightarrow> rreturn \<lparr>public_key = (e, n), private_key = (d, n)\<rparr> ds)))"



section \<open>ElGamal encryption (gamel.py)\<close>

text \<open>
  A Python \<open>str\<close> is a sequence of Unicode code points: it is modelled by the list of
  its code points, integers from 0 to \<open>0x10FFFF = 1114111\<close>. On this model \<open>ord\<close>
  returns the element itself, and \<open>chr(i)\<close> returns \<open>i\<close> when it is a code point and
  raises otherwise.
\<close>

definition py_ord :: "int \<Rightarrow> int" where
  "py_ord char = char"




definition generate_elgamal_keys :: "int \<Rightarrow> int \<Rightarrow> int list \<Rightarrow> elgamal_keys run" where
  "generate_elgamal_keys min_prime max_prime =
     rbind (generate_prime_gamel min_prime max_prime) (\<lambda>p ds.
       case find_generator_gamel p of
         None \<Rightarrow> None
       | Some g \<Rightarrow>
           rbind (randint 1 (p - 2)) (\<lambda>x.
             let y = mod_pow g x p in
             rreturn \<lparr>key_p = p, key_g = g, key_y = y, key_x = x\<rparr>) ds)"





section \<open>RSA encryption (rsa (1).py)\<close>

text \<open>\<open>while prime2 == prime1: prime2 = generate_large_prime(1000, 10000)\<close>.\<close>

partial_function (option) redraw_prime2 :: "int \<Rightarrow> int \<Rightarrow> int list \<Rightarrow> int run" where
  "redraw_prime2 prime1 prime2 ds =
     (if prime2 = prime1
      then case generate_large_prime 1000 10000 ds of
             None \<Rightarrow> None
           | Some (Inl err, ds1) \<Rightarrow> Some (Inl err, ds1)
           | Some (Inr prime2', ds1) \<Rightarrow> redraw_prime2 prime1 prime2' ds1
      else Some (Inr prime2, ds))"

text \<open>\<open>while math.gcd(e, phi) != 1: e = random.randint(2, phi - 1)\<close>.\<close>

partial_function (option) redraw_e :: "int \<Rightarrow> int \<Rightarrow> int list \<Rightarrow> int run" where
  "redraw_e e phi ds =
     (if gcd e phi \<noteq> 1
      then case randint 2 (phi - 1) ds of
             None \<Rightarrow> None
           | Some (Inl err, ds1) \<Rightarrow> Some (Inl err, ds1)
           | Some (Inr e', ds1) \<Rightarrow> redraw_e e' phi ds1
      else Some (Inr e, ds))"

definition generate_rsa_keys :: "int list \<Rightarrow> ((int \<times> int) \<times> (int \<times> int)) run" where
  "generate_rsa_keys =
     rbind (generate_large_prime 1000 10000) (\<lambda>prime1.
       rbind (generate_large_prime 1000 10000) (\<lambda>prime2_first.
         rbind (redraw_prime2 prime1 prime2_first) (\<lambda>prime2.
           let n = prime1 * prime2;
               phi = (prime1 - 1) * (prime2 - 1)
           in rbind (\<lambda>ds. if gcd 65537 phi \<noteq> 1
                           then rbind (randint 2 (phi - 1)) (\<lambda>e. redraw_e e phi) ds
                           else rreturn 65537 ds)
                (\<lambda>e ds. case mod_inverse_rsa e phi of
                           Inl err \<Rightarrow> Some (Inl err, ds)
                         | Inr d \<Rightarrow> rreturn ((e, n), (d, n)) ds))))"

text \<open>
  The text between \<open>encrypt_rsa\<close> and \<open>decrypt_rsa\<close>: the decimal numerals of the
  numbers, joined by commas. \<open>str\<close> of an integer, \<open>','.join\<close>, \<open>.split(',')\<close> and \<open>int\<close>
  of a text are modelled on ASCII strings. \<open>int_of_str\<close> is \<open>int\<close> on the texts \<open>str\<close>
  produces and on every text that is not a numeral at all (the empty text among them),
  where \<open>None\<close> stands for its \<open>ValueError\<close>; the further spellings \<open>int\<close> accepts
  (blanks around, a sign \<open>+\<close>, underscores) do not occur between the two functions.
  \<open>base64.b64encode\<close> and \<open>base64.b64decode\<close> are inverse to each other; the model
  hands the joined text over as it is.
\<close>

definition digit_char :: "nat \<Rightarrow> char" where
  "digit_char d = char_of (48 + d)"

fun str_nat :: "nat \<Rightarrow> string" where
  "str_nat n = (if n < 10 then [digit_char n] else str_nat (n div 10) @ [digit_char (n mod 10)])"

definition str_int :: "int \<Rightarrow> string" where
  "str_int i = (if i < 0 then CHR ''-'' # str_nat (nat (- i)) else str_nat (nat i))"

definition digit_val :: "char \<Rightarrow> nat option" where
  "digit_val c = (let k = (of_char c :: nat) in if 48 \<le> k \<and> k \<le> 57 then Some (k - 48) else None)"

fun parse_nat :: "nat \<Rightarrow> string \<Rightarrow> nat option" where
  "parse_nat acc [] = Some acc"
| "parse_nat acc (c # cs) =
     (case digit_val c of None \<Rightarrow> None | Some d \<Rightarrow> parse_nat (10 * acc + d) cs)"

definition int_of_str :: "string \<Rightarrow> int option" where
  "int_of_str s =
     (case s of
        [] \<Rightarrow> None
      | c # cs \<Rightarrow>
          if c = CHR ''-''
          then (if cs = [] then None else map_option (\<lambda>n. - int n) (parse_nat 0 cs))
          else map_option int (parse_nat 0 s))"

fun join_comma :: "string list \<Rightarrow> string" where
  "join_comma [] = []"
| "join_comma [t] = t"
| "join_comma (t # ts) = t @ CHR '','' # join_comma ts"

fun split_comma :: "string \<Rightarrow> string list" where
  "split_comma [] = [[]]"
| "split_comma (c # cs) =
     (if c = CHR '','' then [] # split_comma cs
      else (case split_comma cs of
              [] \<Rightarrow> [[c]]
            | t # ts \<Rightarrow> (c # t) # ts))"

definition encrypt_rsa :: "int list \<Rightarrow> int \<times> int \<Rightarrow> error + string" where
  "encrypt_rsa plaintext pub =
     (case pub of (e, n) \<Rightarrow>
        if \<exists>char\<in>set plaintext. py_ord char \<ge> n then Inl CharTooLarge
        else let message_nums = map py_ord plaintext;
                 encrypted_nums = map (\<lambda>m. pow3 m e n) message_nums;
                 encrypted_str = join_comma (map str_int encrypted_nums)
             in Inr encrypted_str)"

text \<open>
  The characters \<open>decrypt_rsa\<close> appends for one number: the character itself when the
  number is a code point, the text \<open>[num]\<close> otherwise.
\<close>

definition shown_number :: "int \<Rightarrow> int list" where
  "shown_number num =
     (if 0 \<le> num \<and> num \<le> 1114111 then [num]
      else map (\<lambda>c. int (of_char c)) (CHR ''['' # str_int num @ [CHR '']'']))"

definition decrypt_rsa :: "string \<Rightarrow> int \<times> int \<Rightarrow> error + int list" where
  "decrypt_rsa ciphertext priv =
     (case priv of (d, n) \<Rightarrow>
        let decoded_str = ciphertext;
            parsed = map int_of_str (split_comma decoded_str)
        in if None \<in> set parsed then Inl DecryptFailed
           else let encrypted_nums = map the parsed;
                    decrypted_nums = map (\<lambda>c. pow3 c d n) encrypted_nums;
                    decrypted_message = concat (map shown_number decrypted_nums)
                in Inr decrypted_message)"

section \<open>Multiplicative order\<close>

text \<open>
  The notions the statements about generators are made with: \<open>is_order p a d\<close> says
  that \<open>d\<close> is the multiplicative order of \<open>a\<close> modulo \<open>p\<close>. Polynomials over the
  integers, as lists of coefficients from the constant one upwards, serve the bound on
  the number of roots modulo a prime: \<open>horner\<close> evaluates one, \<open>deflate cs r\<close> is its
  quotient by \<open>x - r\<close>.
\<close>

definition is_order :: "int \<Rightarrow> int \<Rightarrow> nat \<Rightarrow> bool" where
  "is_order p a d \<longleftrightarrow> 0 < d \<and> a ^ d mod p = 1 \<and> (\<forall>k\<in>{1..<d}. a ^ k mod p \<noteq> 1)"

fun horner :: "int list \<Rightarrow> int \<Rightarrow> int" where
  "horner [] x = 0"
| "horner (c # cs) x = c + x * horner cs x"

fun deflate :: "int list \<Rightarrow> int \<Rightarrow> int list" where
  "deflate [] r = []"
| "deflate (c # cs) r = (if cs = [] then [] else horner cs r # deflate cs r)"

text \<open>
  The defining equations of the terminating loops are unfolded where a proof asks for
  them, not by the simplifier on its own.
\<close>

declare gcd_loop.simps [simp del]
declare extended_gcd.simps [simp del]
declare mod_pow_loop.simps [simp del]

section \<open>Evaluation of the built-in power\<close>



lemma pow3_rec:
  assumes e: "0 < e"
  shows "pow3 b e m =
    (if e mod 2 = 0 then pow3 (b * b mod m) (e div 2) m
     else b * pow3 (b * b mod m) (e div 2) m mod m)"
proof -
  have "int (nat e) = int (2 * nat (e div 2) + nat (e mod 2))"
    using e by simp
  then have n: "nat e = 2 * nat (e div 2) + nat (e mod 2)"
    by (simp only: int_int_eq)
  have sq: "(b * b mod m) ^ k mod m = b ^ (2 * k) mod m" for k
    by (simp add: power_mult power2_eq_square power_mod)
  show ?thesis
  proof (cases "e mod 2 = 0")
    case True
    then show ?thesis using n sq[of "nat (e div 2)"] by (simp add: pow3_def)
  next
    case False
    then have "e mod 2 = 1" by presburger
    then show ?thesis using n sq[of "nat (e div 2)"]
      by (simp add: pow3_def mod_mult_right_eq)
  qed
qed



lemma pow3_code [code]:
  "pow3 b e m =
    (if e \<le> 0 then 1 mod m
     else if e mod 2 = 0 then pow3 (b * b mod m) (e div 2) m
     else b * pow3 (b * b mod m) (e div 2) m mod m)"
  using pow3_rec[of e b m] by (auto simp: pow3_def)

text \<open>The loops defined as partial functions are evaluated by their defining equations.\<close>

declare two_adic.simps [code]
declare generate_prime_sig.simps [code]
declare generate_prime_gamel.simps [code]
declare generate_prime_bits.simps [code]
declare generate_large_prime.simps [code]
declare divide_out.simps [code]
declare trial_division.simps [code]
declare choose_e.simps [code]
declare redraw_prime2.simps [code]
declare redraw_e.simps [code]

section \<open>Primes, Fermat's little theorem and the extended Euclidean algorithm\<close>


lemma prime_no_divisor: "prime p \<Longrightarrow> 2 \<le> d \<Longrightarrow> d < p \<Longrightarrow> \<not> d dvd p"
  by (simp add: prime_def)

lemma prime_coprime:
  assumes "prime p" "\<not> p dvd a"
  shows "coprime p a"
proof -
  let ?g = "gcd p a"
  have g0: "0 \<le> ?g" by simp
  have gp: "?g dvd p" by simp
  have pp: "0 < p" using assms(1) by (simp add: prime_def)
  have gle: "?g \<le> p" using gp pp by (rule zdvd_imp_le)
  have gne: "?g \<noteq> 0" using pp by auto
  have "?g \<noteq> p" using assms(2) by (metis gcd_dvd2)
  then have "?g < p" using gle by simp
  then have "\<not> 2 \<le> ?g" using prime_no_divisor[OF assms(1)] gp by blast
  then have "?g = 1" using g0 gne by linarith
  then show ?thesis by (simp add: coprime_iff_gcd_eq_1)
qed

lemma prime_dvd_mult:
  assumes "prime p" "p dvd a * b"
  shows "p dvd a \<or> p dvd b"
proof (cases "p dvd a")
  case True then show ?thesis by simp
next
  case False
  then have "coprime p a" using assms(1) by (rule prime_coprime[rotated])
  then show ?thesis using assms(2) by (simp add: coprime_dvd_mult_right_iff)
qed

lemma prime_dvd_power: "prime p \<Longrightarrow> p dvd a ^ k \<Longrightarrow> p dvd a"
proof (induction k)
  case 0 then show ?case by (simp add: prime_def)
next
  case (Suc k) then show ?case using prime_dvd_mult[of p a "a ^ k"] by auto
qed

lemma prime_dvd_binomial:
  assumes p: "prime (int P)" and k: "0 < k" "k < P"
  shows "int P dvd int (P choose k)"
proof -
  have "k * (P choose k) = P * ((P - 1) choose (k - 1))"
    using k by (simp add: times_binomial_minus1_eq)
  then have "int k * int (P choose k) = int P * int ((P - 1) choose (k - 1))"
    by (metis of_nat_mult)
  then have d: "int P dvd int k * int (P choose k)" by simp
  have "\<not> int P dvd int k" using k by (auto dest: zdvd_imp_le)
  then have "\<not> int P dvd int k" .
  with d show ?thesis using prime_dvd_mult[OF p] by blast
qed

lemma sum_split_ends:
  fixes f :: "nat \<Rightarrow> int"
  assumes "0 < n"
  shows "(\<Sum>k\<le>n. f k) = f 0 + (\<Sum>k\<in>{0<..<n}. f k) + f n"
proof -
  have "{..n} = insert 0 (insert n {0<..<n})" using assms by auto
  then show ?thesis using assms by simp
qed

lemma fermat_step:
  assumes p: "prime (int P)"
  shows "int P dvd (a + 1) ^ P - a ^ P - 1"
proof -
  have P0: "0 < P" using p by (simp add: prime_def)
  have "(a + 1) ^ P = (\<Sum>k\<le>P. int (P choose k) * a ^ k * 1 ^ (P - k))"
    using binomial_ring[of a 1 P] by simp
  also have "\<dots> = (\<Sum>k\<le>P. int (P choose k) * a ^ k)" by simp
  also have "\<dots> = 1 + (\<Sum>k\<in>{0<..<P}. int (P choose k) * a ^ k) + a ^ P"
    using sum_split_ends[OF P0, of "\<lambda>k. int (P choose k) * a ^ k"] by simp
  finally have "(a + 1) ^ P - a ^ P - 1 = (\<Sum>k\<in>{0<..<P}. int (P choose k) * a ^ k)"
    by simp
  moreover have "int P dvd (\<Sum>k\<in>{0<..<P}. int (P choose k) * a ^ k)"
    by (rule dvd_sum) (auto intro!: dvd_mult2 prime_dvd_binomial[OF p])
  ultimately show ?thesis by simp
qed

lemma fermat_nat: "prime (int P) \<Longrightarrow> int P dvd (int a) ^ P - int a"
proof (induction a)
  case 0
  then show ?case by (simp add: prime_def power_0_left)
next
  case (Suc a)
  have "(int (Suc a)) ^ P - int (Suc a) = ((int a + 1) ^ P - int a ^ P - 1) + (int a ^ P - int a)"
    by (simp add: add.commute)
  moreover have "int P dvd (int a + 1) ^ P - int a ^ P - 1"
    by (rule fermat_step[OF Suc.prems])
  moreover have "int P dvd int a ^ P - int a"
    by (rule Suc.IH[OF Suc.prems])
  ultimately show ?case by (simp only: dvd_add)
qed

lemma fermat_dvd:
  assumes "prime p"
  shows "p dvd a ^ nat p - a"
proof -
  have pp: "0 < p" using assms by (simp add: prime_def)
  define b where "b = a mod p"
  have b0: "0 \<le> b" using pp by (simp add: b_def)
  have "int (nat p) dvd int (nat b) ^ nat p - int (nat b)"
    by (rule fermat_nat) (use assms pp in simp)
  then have "p dvd b ^ nat p - b" using pp b0 by simp
  then have "(b ^ nat p) mod p = b mod p" by (simp add: mod_eq_dvd_iff)
  then have "(a ^ nat p) mod p = a mod p" by (simp add: b_def power_mod)
  then show ?thesis by (simp add: mod_eq_dvd_iff)
qed

lemma fermat_little:
  assumes "prime p" "\<not> p dvd a"
  shows "a ^ nat (p - 1) mod p = 1"
proof -
  have pp: "1 < p" using assms by (simp add: prime_def)
  have "nat p = Suc (nat (p - 1))" using pp by simp
  then have "a ^ nat p - a = a * (a ^ nat (p - 1) - 1)" by (simp add: algebra_simps)
  then have "p dvd a * (a ^ nat (p - 1) - 1)" using fermat_dvd[OF assms(1), of a] by simp
  then have "p dvd a ^ nat (p - 1) - 1" using prime_dvd_mult[OF assms(1)] assms(2) by blast
  then have "a ^ nat (p - 1) mod p = 1 mod p" by (simp add: mod_eq_dvd_iff)
  then show ?thesis using pp by simp
qed




lemma extended_gcd_0: "extended_gcd 0 b = (b, 0, 1)"
  by (simp add: extended_gcd.simps[of 0 b])

lemma extended_gcd_rec:
  "a \<noteq> 0 \<Longrightarrow> extended_gcd (b mod a) a = (g, x1, y1)
   \<Longrightarrow> extended_gcd a b = (g, y1 - (b div a) * x1, x1)"
  by (simp add: extended_gcd.simps[of a b])

lemma extended_gcd_bezout: "extended_gcd a b = (g, x, y) \<Longrightarrow> a * x + b * y = g"
proof (induction a b arbitrary: g x y rule: extended_gcd.induct)
  case (1 a b)
  show ?case
  proof (cases "a = 0")
    case True
    then show ?thesis using "1.prems" by (simp add: extended_gcd_0)
  next
    case False
    obtain g' x1 y1 where r: "extended_gcd (b mod a) a = (g', x1, y1)"
      by (metis prod_cases3)
    from "1.IH"[OF False r] have ih: "(b mod a) * x1 + a * y1 = g'" .
    have "(g, x, y) = extended_gcd a b" using "1.prems" by simp
    also have "\<dots> = (g', y1 - (b div a) * x1, x1)" by (rule extended_gcd_rec[OF False r])
    finally have "g = g' \<and> x = y1 - (b div a) * x1 \<and> y = x1" by (simp only: prod.inject)
    then have res: "g = g'" "x = y1 - (b div a) * x1" "y = x1" by blast+
    have "a * (y1 - (b div a) * x1) + b * x1 = (b - a * (b div a)) * x1 + a * y1"
      by (simp add: algebra_simps)
    also have "b - a * (b div a) = b mod a" by (simp add: minus_mult_div_eq_mod)
    finally show ?thesis using ih res by simp
  qed
qed

lemma extended_gcd_fst: "0 \<le> a \<Longrightarrow> 0 \<le> b \<Longrightarrow> fst (extended_gcd a b) = gcd a b"
proof (induction a b rule: extended_gcd.induct)
  case (1 a b)
  show ?case
  proof (cases "a = 0")
    case True
    then show ?thesis using "1.prems" by (simp add: extended_gcd_0)
  next
    case False
    then have a: "0 < a" using "1.prems" by simp
    then have "0 \<le> b mod a" by simp
    from "1.IH"[OF False this "1.prems"(1)]
    have ih: "fst (extended_gcd (b mod a) a) = gcd (b mod a) a" .
    have g: "gcd (b mod a) a = gcd a b" by (metis gcd.commute gcd_red_int)
    obtain g' x1 y1 where r: "extended_gcd (b mod a) a = (g', x1, y1)"
      by (metis prod_cases3)
    show ?thesis using ih g r extended_gcd_rec[OF False r] by simp
  qed
qed

section \<open>ElGamal verification rejects out-of-range signatures\<close>

text \<open>
  C9: for every key dictionary, every message digest and every pair \<open>(r, s)\<close> with
  \<open>r \<le> 0\<close>, \<open>r \<ge> p\<close>, \<open>s \<le> 0\<close> or \<open>s \<ge> p - 1\<close>, \<open>verify\<close> returns \<open>False\<close>: the range
  test is the first thing it evaluates, and it returns there, before any power is computed.
\<close>

theorem verify_elgamal_rejects_out_of_range:
  "r \<le> 0 \<or> r \<ge> key_p keys \<or> s \<le> 0 \<or> s \<ge> key_p keys - 1
   \<Longrightarrow> verify_elgamal hm (r, s) keys = False"
  by (auto simp: verify_elgamal_def Let_def)

theorem verify_elgamal_rejects_out_of_range_witness:
  "verify_elgamal 7 (0, 3) \<lparr>key_p = 11, key_g = 2, key_y = 8, key_x = 3\<rparr> = False
   \<and> verify_elgamal 7 (11, 3) \<lparr>key_p = 11, key_g = 2, key_y = 8, key_x = 3\<rparr> = False"
  using verify_elgamal_rejects_out_of_range
          [of 0 "\<lparr>key_p = 11, key_g = 2, key_y = 8, key_x = 3\<rparr>" 3 7]
        verify_elgamal_rejects_out_of_range
          [of 11 "\<lparr>key_p = 11, key_g = 2, key_y = 8, key_x = 3\<rparr>" 3 7]
  by simp

section \<open>Miller-Rabin on the trivial cases\<close>

lemma is_prime_gamel_trivial:
  "(n \<le> 1 \<longrightarrow> is_prime_gamel n k ds = Some (Inr False, ds))
   \<and> (2 < n \<and> n mod 2 = 0 \<longrightarrow> is_prime_gamel n k ds = Some (Inr False, ds))
   \<and> (n = 2 \<or> n = 3 \<longrightarrow> is_prime_gamel n k ds = Some (Inr True, ds))"
  by (auto simp: is_prime_gamel_def rreturn_def)

text \<open>
  \<open>is_prime\<close> of gamel.py on the trivial cases: \<open>False\<close> for \<open>n \<le> 1\<close> and for every
  even \<open>n > 2\<close>, \<open>True\<close> for 2 and 3, and no witness is drawn.
\<close>

theorem is_prime_gamel_trivial_cases:
  "(n \<le> 1 \<longrightarrow> is_prime_gamel n k ds = Some (Inr False, ds))
   \<and> (2 < n \<and> n mod 2 = 0 \<longrightarrow> is_prime_gamel n k ds = Some (Inr False, ds))
   \<and> (n = 2 \<or> n = 3 \<longrightarrow> is_prime_gamel n k ds = Some (Inr True, ds))"
  by (rule is_prime_gamel_trivial)

theorem is_prime_gamel_trivial_cases_witness:
  "is_prime_gamel 0 5 [9, 9] = Some (Inr False, [9, 9])
   \<and> is_prime_gamel 28 5 [9, 9, 9, 9, 9] = Some (Inr False, [9, 9, 9, 9, 9])
   \<and> is_prime_gamel 3 5 [] = Some (Inr True, [])"
  using is_prime_gamel_trivial_cases[of 0 5 "[9, 9]"]
    is_prime_gamel_trivial_cases[of 28 5 "[9, 9, 9, 9, 9]"]
    is_prime_gamel_trivial_cases[of 3 5 "[]"]
  by simp

lemma is_prime_sig_small:
  "(n \<le> 1 \<or> n = 4 \<longrightarrow> is_prime_sig n k ds = Some (Inr False, ds))
   \<and> (n = 2 \<or> n = 3 \<longrightarrow> is_prime_sig n k ds = Some (Inr True, ds))"
  by (auto simp: is_prime_sig_def rreturn_def)

text \<open>
  C6: \<open>is_prime\<close> is to return \<open>False\<close> for \<open>n \<le> 1\<close> and for every even \<open>n > 2\<close>, and
  \<open>True\<close> for \<open>n = 2\<close> and \<open>n = 3\<close>, whatever witnesses are drawn. \<open>is_prime\<close> of gamel.py
  does (\<open>is_prime_gamel_trivial\<close>). \<open>is_prime\<close> of RSAsignature.py and
  Elgamelsignature.py tests \<open>n == 4\<close> only among the even numbers: on the even number
  28, with the witness 9 drawn in each of the five rounds, it returns \<open>True\<close>
  (\<open>28 - 1 = 27\<close> is odd and \<open>9 ^ 27 mod 28 = 1\<close>).
\<close>

theorem is_prime_sig_accepts_even_28:
  "is_prime_sig 28 5 [9, 9, 9, 9, 9] = Some (Inr True, [])"
  by code_simp

section \<open>The range of generate\_prime\<close>

text \<open>
  C7: \<open>generate_prime(min_val, max_val)\<close> is to return an odd probable prime inside
  \<open>[min_val, max_val]\<close>. Both modules make an even draw odd by adding 1, so the draw
  \<open>max_val = 12\<close> in \<open>[10, 12]\<close> becomes the candidate 13; with the witness 2 drawn in
  the five rounds the test accepts it and 13, outside the interval, is returned.
\<close>

theorem generate_prime_leaves_range:
  "generate_prime_sig 10 12 [12, 2, 2, 2, 2, 2] = Some (Inr 13, [])
   \<and> generate_prime_gamel 10 12 [12, 2, 2, 2, 2, 2] = Some (Inr 13, [])"
  by code_simp

section \<open>RSA key generation without the retry on equal primes\<close>

text \<open>
  C5: RSA key generation is to retry when the two primes drawn are equal, so that the
  modulus is the product of two distinct primes. \<open>generate_keypair\<close> of RSAsignature.py
  has no such test: with \<open>bits = 16\<close> and the value 251 drawn for both primes (the
  witness 2 in every round of the test) it returns the modulus \<open>63001 = 251 * 251\<close>.
\<close>

theorem generate_keypair_rsa_equal_primes:
  "generate_keypair_rsa 16 [251, 2, 2, 2, 2, 2, 251, 2, 2, 2, 2, 2]
     = Some (Inr \<lparr>public_key = (65537, 63001), private_key = (35973, 63001)\<rparr>, [])
   \<and> (63001::int) = 251 * 251"
  by code_simp

section \<open>Modular inverse\<close>

lemma mod_inverse_value:
  assumes m: "1 < m" and e: "extended_gcd a m = (1, x, y)"
  shows "0 \<le> (x mod m + m) mod m \<and> (x mod m + m) mod m < m
         \<and> (a * ((x mod m + m) mod m)) mod m = 1
         \<and> 0 \<le> x mod m \<and> x mod m < m \<and> (a * (x mod m)) mod m = 1"
proof -
  have b: "a * x + m * y = 1" using e by (rule extended_gcd_bezout)
  have r: "(x mod m + m) mod m = x mod m" using m by simp
  have "a * x = 1 - m * y" using b by simp
  then have "(a * x) mod m = (1 - m * y) mod m" by simp
  also have "\<dots> = 1 mod m" by (simp add: mod_diff_right_eq [symmetric])
  also have "\<dots> = 1" using m by simp
  finally have "(a * x) mod m = 1" .
  then have "(a * (x mod m)) mod m = 1" by (simp add: mod_mult_right_eq)
  then show ?thesis using r m by simp
qed





section \<open>RSA signatures\<close>




section \<open>Prime factors\<close>

lemma divide_out_spec:
  assumes i: "2 \<le> i"
  shows "1 \<le> n \<Longrightarrow> \<exists>n' k. divide_out i n fs = Some (n', fs @ replicate k i)
            \<and> n = n' * i ^ k \<and> \<not> i dvd n' \<and> 1 \<le> n'"
proof (induction "nat n" arbitrary: n fs rule: less_induct)
  case less
  show ?case
  proof (cases "n mod i = 0")
    case False
    then have "divide_out i n fs = Some (n, fs @ replicate 0 i)"
      by (simp add: divide_out.simps[of i n fs])
    moreover have "\<not> i dvd n" using False by (simp add: dvd_eq_mod_eq_0)
    ultimately show ?thesis using less.prems by (intro exI[of _ n] exI[of _ 0]) simp
  next
    case True
    then have d: "i dvd n" by (simp add: dvd_eq_mod_eq_0)
    then have "i \<le> n" using less.prems by (intro zdvd_imp_le) simp_all
    then have "0 < n div i" using i by (simp add: pos_imp_zdiv_pos_iff)
    then have q1: "1 \<le> n div i" by simp
    have q2: "n div i < n" using less.prems i by (intro int_div_less_self) simp_all
    then have "nat (n div i) < nat n" using q1 by simp
    from less.hyps[OF this q1, of "fs @ [i]"]
    obtain n' k where r: "divide_out i (n div i) (fs @ [i]) = Some (n', (fs @ [i]) @ replicate k i)"
      and e: "n div i = n' * i ^ k" and nd: "\<not> i dvd n'" and n1: "1 \<le> n'" by blast
    have "divide_out i n fs = Some (n', fs @ replicate (Suc k) i)"
      using True r by (simp add: divide_out.simps[of i n fs])
    moreover have "n = n' * i ^ Suc k"
      using e d by (metis dvd_div_mult_self mult.assoc mult.commute power_Suc)
    ultimately show ?thesis using nd n1 by blast
  qed
qed

lemma no_small_divisor_prime:
  assumes n: "1 < n" and small: "\<forall>d. 2 \<le> d \<and> d < i \<longrightarrow> \<not> d dvd n" and lt: "n < i * i"
    and i: "2 \<le> i"
  shows "prime n"
  unfolding prime_def
proof (intro conjI ballI)
  show "1 < n" by fact
next
  fix d assume "d \<in> {2..n - 1}"
  then have d: "2 \<le> d" "d < n" by auto
  show "\<not> d dvd n"
  proof
    assume dv: "d dvd n"
    then obtain c where c: "n = d * c" by (auto simp: dvd_def)
    have cpos: "0 < c" using c n d by (metis less_trans mult_pos_pos not_less zero_less_mult_pos zero_less_one zero_less_numeral order_less_le_trans)
    have "c \<noteq> 1" using c d by auto
    then have c2: "2 \<le> c" using cpos by simp
    have cd: "c dvd n" using c by simp
    have "i \<le> d" using small d dv by (meson not_less)
    moreover have "i \<le> c" using small c2 cd by (meson not_less)
    ultimately have "i * i \<le> d * c" using i by (intro mult_mono) simp_all
    then show False using lt c by simp
  qed
qed

lemma prime_divisors_of_prime:
  assumes "prime n"
  shows "{q. prime q \<and> q dvd n} = {n}"
proof -
  have "q = n" if "prime q" "q dvd n" for q
  proof -
    have "2 \<le> q" "0 < n" using that assms by (simp_all add: prime_def)
    moreover have "q \<le> n" using that(2) \<open>0 < n\<close> by (rule zdvd_imp_le)
    ultimately show ?thesis using prime_no_divisor[OF assms, of q] that(2) by force
  qed
  then show ?thesis using assms by auto
qed

lemma least_divisor_prime:
  assumes i: "2 \<le> i" and dv: "i dvd n" and small: "\<forall>d. 2 \<le> d \<and> d < i \<longrightarrow> \<not> d dvd n"
  shows "prime i"
  unfolding prime_def
proof (intro conjI ballI)
  show "1 < i" using i by simp
next
  fix d assume "d \<in> {2..i - 1}"
  then have "2 \<le> d" "d < i" by auto
  then have "\<not> d dvd n" using small by blast
  then show "\<not> d dvd i" using dv dvd_trans by blast
qed

lemma no_prime_divides_1: "{q. prime q \<and> q dvd 1} = {}"
  by (auto simp: prime_def)

lemma trial_division_spec:
  "2 \<le> i \<Longrightarrow> 1 \<le> n \<Longrightarrow> \<forall>d. 2 \<le> d \<and> d < i \<longrightarrow> \<not> d dvd n \<Longrightarrow>
   \<exists>n' fs'. trial_division i n fs = Some (n', fs')
      \<and> set (if 1 < n' then fs' @ [n'] else fs') = set fs \<union> {q. prime q \<and> q dvd n}"
proof (induction "nat (n + 1 - i)" arbitrary: i n fs rule: less_induct)
  case less
  note i = less.prems(1) and n = less.prems(2) and small = less.prems(3)
  show ?case
  proof (cases "i * i \<le> n")
    case False
    then have r: "trial_division i n fs = Some (n, fs)"
      by (simp add: trial_division.simps[of i n fs])
    show ?thesis
    proof (cases "1 < n")
      case True
      have "prime n" using True small _ i by (rule no_small_divisor_prime) (use False in simp)
      then show ?thesis using r True prime_divisors_of_prime[of n] by simp
    next
      case F: False
      then have "n = 1" using n by simp
      then show ?thesis using r by (auto simp: prime_def)
    qed
  next
    case True
    obtain n' k where d: "divide_out i n fs = Some (n', fs @ replicate k i)"
      and e: "n = n' * i ^ k" and nd: "\<not> i dvd n'" and n1: "1 \<le> n'"
      using divide_out_spec[OF i n, of fs] by blast
    have n'dvd: "n' dvd n" using e by simp
    have "n' \<le> n" using n'dvd n by (intro zdvd_imp_le) simp_all
    moreover have "i \<le> i * i" using i by (simp add: mult_le_cancel_left1)
    ultimately have m: "nat (n' + 1 - (i + 1)) < nat (n + 1 - i)" using True by simp
    have small': "\<forall>d. 2 \<le> d \<and> d < i + 1 \<longrightarrow> \<not> d dvd n'"
    proof (intro allI impI)
      fix d assume "2 \<le> d \<and> d < i + 1"
      then have "d = i \<or> (2 \<le> d \<and> d < i)" by auto
      then show "\<not> d dvd n'" using nd small n'dvd dvd_trans by blast
    qed
    have i2: "2 \<le> i + 1" using i by simp
    from less.hyps[OF m i2 n1 small', of "fs @ replicate k i"]
    obtain n'' fs' where r: "trial_division (i + 1) n' (fs @ replicate k i) = Some (n'', fs')"
      and s: "set (if 1 < n'' then fs' @ [n''] else fs')
                = set (fs @ replicate k i) \<union> {q. prime q \<and> q dvd n'}" by blast
    have r': "trial_division i n fs = Some (n'', fs')"
      using True d r by (simp add: trial_division.simps[of i n fs])
    have "set (fs @ replicate k i) \<union> {q. prime q \<and> q dvd n'} = set fs \<union> {q. prime q \<and> q dvd n}"
    proof (cases "k = 0")
      case True
      then show ?thesis using e by simp
    next
      case False
      then have idv: "i dvd n" using e by (cases k) simp_all
      have pi: "prime i" using i idv small by (rule least_divisor_prime)
      have "{q. prime q \<and> q dvd n} = insert i {q. prime q \<and> q dvd n'}"
      proof (intro set_eqI iffI)
        fix q assume "q \<in> {q. prime q \<and> q dvd n}"
        then have q: "prime q" "q dvd n' * i ^ k" using e by simp_all
        then have "q dvd n' \<or> q dvd i" using prime_dvd_mult prime_dvd_power by blast
        moreover have "q = i" if "q dvd i"
          using prime_divisors_of_prime[OF pi] q(1) that by blast
        ultimately show "q \<in> insert i {q. prime q \<and> q dvd n'}" using q(1) by auto
      next
        fix q assume "q \<in> insert i {q. prime q \<and> q dvd n'}"
        then show "q \<in> {q. prime q \<and> q dvd n}" using pi idv n'dvd dvd_trans by auto
      qed
      then show ?thesis using False by auto
    qed
    then show ?thesis using r' s by simp
  qed
qed

lemma prime_factors_spec:
  assumes "1 \<le> n"
  shows "\<exists>fs. prime_factors n = Some fs \<and> distinct fs \<and> set fs = {q. prime q \<and> q dvd n}"
proof -
  have small: "\<forall>d. 2 \<le> d \<and> d < (2::int) \<longrightarrow> \<not> d dvd n" by auto
  have "(2::int) \<le> 2" by simp
  from trial_division_spec[OF this assms small, of "[]"]
  obtain n' fs' where "trial_division 2 n [] = Some (n', fs')"
    and "set (if 1 < n' then fs' @ [n'] else fs') = {q. prime q \<and> q dvd n}" by auto
  then show ?thesis by (simp add: prime_factors_def)
qed

text \<open>
  C10: for every integer \<open>n \<ge> 1\<close>, \<open>prime_factors(n)\<close> returns, and what it returns is
  exactly the set of the prime divisors of \<open>n\<close>, each once: every element is a prime
  that divides \<open>n\<close>, every prime that divides \<open>n\<close> is an element, no element is repeated,
  and for \<open>n = 1\<close> the list is empty.
\<close>

theorem prime_factors_correct:
  "1 \<le> n \<Longrightarrow>
     \<exists>fs. prime_factors n = Some fs \<and> distinct fs \<and> set fs = {q. prime q \<and> q dvd n}
          \<and> (n = 1 \<longrightarrow> fs = [])"
proof -
  assume n: "1 \<le> n"
  from prime_factors_spec[OF n] obtain fs where fs: "prime_factors n = Some fs" "distinct fs"
    "set fs = {q. prime q \<and> q dvd n}" by blast
  have "fs = []" if "n = 1"
  proof -
    have "set fs = {}" using fs(3) that no_prime_divides_1 by simp
    then show ?thesis by simp
  qed
  then show ?thesis using fs by blast
qed

theorem prime_factors_correct_witness:
  "prime_factors 40 = Some [2, 5] \<and> {q. prime q \<and> q dvd 40} = {2, 5}
   \<and> prime_factors 1 = Some []"
proof -
  have e: "prime_factors 40 = Some [2, 5]" by code_simp
  have "(1::int) \<le> 40" "(1::int) \<le> 1" by simp_all
  from prime_factors_correct[OF this(1)] prime_factors_correct[OF this(2)] e
  show ?thesis by auto
qed

section \<open>ElGamal signatures\<close>

lemma gcd_loop_gcd: "0 \<le> a \<Longrightarrow> 0 \<le> b \<Longrightarrow> gcd_loop a b = gcd a b"
proof (induction a b rule: gcd_loop.induct)
  case (1 a b)
  show ?case
  proof (cases "b = 0")
    case True
    then show ?thesis using "1.prems" by (simp add: gcd_loop.simps[of a 0])
  next
    case False
    then have b: "0 < b" using "1.prems" by simp
    then have "0 \<le> a mod b" by simp
    from "1.IH"[OF False "1.prems"(2) this]
    have "gcd_loop b (a mod b) = gcd b (a mod b)" .
    also have "\<dots> = gcd a b" by (metis gcd_red_int)
    finally show ?thesis using False by (simp add: gcd_loop.simps[of a b])
  qed
qed












section \<open>Encryption and decryption\<close>

subsection \<open>The text between the two RSA functions\<close>




declare str_nat.simps [simp del]







lemma split_comma_nonempty: "split_comma s \<noteq> []"
  by (induction s) (auto split: list.splits)





subsection \<open>RSA, one number and one message\<close>





subsection \<open>ElGamal, one pair and one message\<close>

lemma mod_pow_loop_eq:
  "1 < m \<Longrightarrow> 0 \<le> r \<Longrightarrow> r < m \<Longrightarrow> mod_pow_loop r b e m = (r * b ^ nat e) mod m"
proof (induction r b e m rule: mod_pow_loop.induct)
  case (1 r b e m)
  show ?case
  proof (cases "e > 0")
    case False
    then show ?thesis using "1.prems" by (simp add: mod_pow_loop.simps[of r b e m])
  next
    case True
    let ?r = "if e mod 2 = 1 then (r * b) mod m else r"
    have r': "0 \<le> ?r" "?r < m" using "1.prems" by simp_all
    have ih: "mod_pow_loop ?r ((b * b) mod m) (e div 2) m
                = (?r * ((b * b) mod m) ^ nat (e div 2)) mod m"
      using "1.IH"[OF True "1.prems"(1) r'] .
    have sq: "((b * b) mod m) ^ k mod m = b ^ (2 * k) mod m" for k
      by (simp add: power_mult power2_eq_square power_mod)
    have "int (nat e) = int (2 * nat (e div 2) + nat (e mod 2))" using True by simp
    then have n: "nat e = 2 * nat (e div 2) + nat (e mod 2)" by (simp only: int_int_eq)
    have "(?r * ((b * b) mod m) ^ nat (e div 2)) mod m = (r * b ^ nat e) mod m"
    proof (cases "e mod 2 = 1")
      case True
      have "((r * b) mod m * ((b * b) mod m) ^ nat (e div 2)) mod m
              = ((r * b) * (((b * b) mod m) ^ nat (e div 2) mod m)) mod m"
        by (simp add: mod_mult_eq mod_mult_left_eq mod_mult_right_eq)
      also have "\<dots> = ((r * b) * (b ^ (2 * nat (e div 2)) mod m)) mod m" by (simp only: sq)
      also have "\<dots> = ((r * b) * b ^ (2 * nat (e div 2))) mod m"
        by (simp only: mod_mult_right_eq)
      also have "\<dots> = (r * (b * b ^ (2 * nat (e div 2)))) mod m"
        by (simp only: mult.assoc)
      also have "b * b ^ (2 * nat (e div 2)) = b ^ nat e" using n True by simp
      finally show ?thesis using True by simp
    next
      case False
      then have z: "e mod 2 = 0" by presburger
      have "(r * ((b * b) mod m) ^ nat (e div 2)) mod m
              = (r * (((b * b) mod m) ^ nat (e div 2) mod m)) mod m"
        by (simp add: mod_mult_right_eq)
      also have "\<dots> = (r * (b ^ (2 * nat (e div 2)) mod m)) mod m" by (simp only: sq)
      also have "\<dots> = (r * b ^ (2 * nat (e div 2))) mod m" by (simp add: mod_mult_right_eq)
      also have "b ^ (2 * nat (e div 2)) = b ^ nat e" using n z by simp
      finally show ?thesis using False by simp
    qed
    then show ?thesis using True ih by (simp add: mod_pow_loop.simps[of r b e m])
  qed
qed

lemma mod_pow_pow3: "0 < m \<Longrightarrow> mod_pow b e m = pow3 b e m"
proof (cases "m = 1")
  case True then show ?thesis by (simp add: mod_pow_def pow3_def)
next
  case False
  assume "0 < m"
  then have "1 < m" using False by simp
  then show ?thesis using mod_pow_loop_eq[of m 1 "b mod m" e]
    by (simp add: mod_pow_def pow3_def power_mod)
qed






subsection \<open>The round trip\<close>


lemma rsa_text_example:
  "encrypt_rsa [6, 30] (3, 33) = Inr ''18,6'' \<and> decrypt_rsa ''18,6'' (7, 33) = Inr [6, 30]"
  by code_simp



section \<open>Generators of the multiplicative group\<close>

lemma horner_deflate: "horner cs x - horner cs r = (x - r) * horner (deflate cs r) x"
proof (induction cs)
  case Nil
  then show ?case by simp
next
  case (Cons c cs)
  show ?case
  proof (cases "cs = []")
    case True
    then show ?thesis by simp
  next
    case False
    have "horner (c # cs) x - horner (c # cs) r
            = (x - r) * horner cs r + x * (horner cs x - horner cs r)"
      by (simp add: algebra_simps)
    also have "\<dots> = (x - r) * horner cs r + x * ((x - r) * horner (deflate cs r) x)"
      by (simp only: Cons.IH)
    also have "\<dots> = (x - r) * horner (deflate (c # cs) r) x"
      using False by (simp add: algebra_simps)
    finally show ?thesis .
  qed
qed

lemma length_deflate: "length (deflate cs r) = length cs - 1"
  by (induction cs) auto

lemma last_deflate: "2 \<le> length cs \<Longrightarrow> last (deflate cs r) = last cs"
proof (induction cs)
  case Nil
  then show ?case by simp
next
  case (Cons c cs)
  then have ne: "cs \<noteq> []" by auto
  show ?case
  proof (cases "2 \<le> length cs")
    case True
    then have "deflate cs r \<noteq> []" using length_deflate[of cs r] by auto
    then show ?thesis using Cons.IH[OF True] ne by simp
  next
    case False
    then obtain c' where "cs = [c']" using ne by (cases cs) (auto simp: Suc_le_eq)
    then show ?thesis by simp
  qed
qed

lemma roots_bound:
  assumes p: "prime p"
  shows "cs \<noteq> [] \<Longrightarrow> \<not> p dvd last cs
         \<Longrightarrow> card {x \<in> {0..p - 1}. p dvd horner cs x} \<le> length cs - 1"
proof (induction "length cs" arbitrary: cs)
  case 0
  then show ?case by simp
next
  case (Suc n)
  let ?R = "\<lambda>cs. {x \<in> {0..p - 1}. p dvd horner cs x}"
  show ?case
  proof (cases "?R cs = {}")
    case True
    show ?thesis by (simp only: True card.empty le0)
  next
    case False
    then obtain r where r: "r \<in> {0..p - 1}" "p dvd horner cs r" by blast
    have len2: "2 \<le> length cs"
    proof (rule ccontr)
      assume "\<not> 2 \<le> length cs"
      then obtain c where "cs = [c]" using Suc.prems(1) by (cases cs) (auto simp: Suc_le_eq)
      then show False using r(2) Suc.prems(2) by simp
    qed
    let ?q = "deflate cs r"
    have lq: "length ?q = n" using Suc.hyps(2) by (simp add: length_deflate)
    have qne: "?q \<noteq> []" using len2 length_deflate[of cs r] by auto
    have lastq: "\<not> p dvd last ?q" using Suc.prems(2) last_deflate[OF len2] by simp
    have ih: "card (?R ?q) \<le> length ?q - 1"
      using Suc.hyps(1)[OF lq[symmetric] qne lastq] .
    have sub: "?R cs \<subseteq> insert r (?R ?q)"
    proof
      fix x assume x: "x \<in> ?R cs"
      show "x \<in> insert r (?R ?q)"
      proof (cases "x = r")
        case True then show ?thesis by simp
      next
        case False
        have "p dvd horner cs x - horner cs r" using x r(2) by (simp add: dvd_diff)
        then have "p dvd (x - r) * horner ?q x" by (simp only: horner_deflate)
        moreover have "\<not> p dvd x - r"
        proof
          assume d: "p dvd x - r"
          have lt: "\<bar>x - r\<bar> < p" using x r(1) by auto
          have "0 < \<bar>x - r\<bar>" using False by simp
          from zdvd_not_zless[OF this lt] d show False by simp
        qed
        ultimately have "p dvd horner ?q x" using prime_dvd_mult[OF p] by blast
        then show ?thesis using x by simp
      qed
    qed
    have "finite (?R ?q)" by (rule finite_subset[of _ "{0..p - 1}"]) auto
    then have fin: "finite (insert r (?R ?q))" by (rule finite.insertI)
    have "card (?R cs) \<le> card (insert r (?R ?q))" using sub fin by (rule card_mono[rotated])
    also have "\<dots> \<le> Suc (card (?R ?q))" by (rule card_insert_le_m1) simp_all
    also have "\<dots> \<le> Suc (length ?q - 1)" using ih by simp
    also have "\<dots> = length cs - 1" using lq Suc.hyps(2) len2 by simp
    finally show ?thesis .
  qed
qed

lemma horner_monomial: "horner (replicate k 0 @ [1]) x = x ^ k"
  by (induction k) simp_all

lemma power_roots_bound:
  assumes p: "prime p" and n: "0 < n"
  shows "card {x \<in> {0..p - 1}. x ^ n mod p = 1} \<le> n"
proof -
  let ?cs = "(- 1) # replicate (n - 1) 0 @ [1::int]"
  have p1: "1 < p" using p by (simp add: prime_def)
  have h: "horner ?cs x = x ^ n - 1" for x
  proof -
    have "horner ?cs x = - 1 + x * x ^ (n - 1)" by (simp add: horner_monomial)
    also have "x * x ^ (n - 1) = x ^ n" using n by (cases n) simp_all
    finally show ?thesis by simp
  qed
  have nl: "\<not> p dvd last ?cs" using p1 by (simp add: zdvd_not_zless)
  have ne: "?cs \<noteq> []" by simp
  have c: "card {x \<in> {0..p - 1}. p dvd horner ?cs x} \<le> length ?cs - 1"
    using ne nl by (rule roots_bound[OF p])
  have iff: "(p dvd x ^ n - 1) = (x ^ n mod p = 1)" for x
    using p1 by (simp add: mod_eq_dvd_iff [symmetric])
  have "{x \<in> {0..p - 1}. p dvd horner ?cs x} = {x \<in> {0..p - 1}. x ^ n mod p = 1}"
    by (simp only: h iff)
  moreover have "length ?cs - 1 = n" using n by simp
  ultimately show ?thesis using c by simp
qed

subsection \<open>Orders and primitive roots\<close>

lemma power_mult_one:
  fixes a p :: int
  assumes "1 < p" "a ^ d mod p = 1"
  shows "a ^ (d * k) mod p = 1"
proof -
  have "a ^ (d * k) mod p = (a ^ d mod p) ^ k mod p" by (simp add: power_mult power_mod)
  then show ?thesis using assms by simp
qed

lemma order_dvd:
  assumes o: "is_order p a d" and p: "1 < p" and k: "a ^ k mod p = 1"
  shows "d dvd k"
proof -
  have d: "0 < d" "a ^ d mod p = 1" using o by (simp_all add: is_order_def)
  have "a ^ k = a ^ (d * (k div d)) * a ^ (k mod d)" by (simp add: power_add [symmetric])
  then have "a ^ k mod p = (a ^ (d * (k div d)) mod p) * (a ^ (k mod d) mod p) mod p"
    by (simp add: mod_mult_eq)
  then have "a ^ (k mod d) mod p = 1"
    using power_mult_one[OF p d(2), of "k div d"] k p by simp
  moreover have "k mod d < d" using d(1) by simp
  ultimately have "\<not> 0 < k mod d" using o by (auto simp: is_order_def)
  then show ?thesis by (simp add: dvd_eq_mod_eq_0)
qed

lemma order_exists:
  assumes p: "prime p" and a: "\<not> p dvd a"
  shows "\<exists>d. is_order p a d"
proof -
  have p1: "1 < p" using p by (simp add: prime_def)
  let ?P = "\<lambda>d. 0 < d \<and> a ^ d mod p = 1"
  have "?P (nat (p - 1))" using fermat_little[OF p a] p1 by simp
  then have l: "?P (LEAST d. ?P d)" by (rule LeastI)
  have nl: "\<not> ?P k" if "k < (LEAST d. ?P d)" for k using that by (rule not_less_Least)
  have "a ^ k mod p \<noteq> 1" if "k \<in> {1..<(LEAST d. ?P d)}" for k
    using nl[of k] that by auto
  then have "is_order p a (LEAST d. ?P d)" using l unfolding is_order_def by blast
  then show ?thesis ..
qed

lemma prime_power_split:
  fixes q m :: nat
  assumes q: "2 \<le> q"
  shows "0 < m \<Longrightarrow> \<exists>e m'. m = q ^ e * m' \<and> \<not> q dvd m'"
proof (induction m rule: less_induct)
  case (less m)
  show ?case
  proof (cases "q dvd m")
    case False
    then have "m = q ^ 0 * m \<and> \<not> q dvd m" by simp
    then show ?thesis by blast
  next
    case True
    then obtain t where t: "m = q * t" by (auto simp: dvd_def)
    then have "0 < t" "t < m" using less.prems q by (auto simp: )
    from less.IH[OF this(2) this(1)] obtain e m' where "t = q ^ e * m'" "\<not> q dvd m'" by blast
    then have "m = q ^ Suc e * m' \<and> \<not> q dvd m'" using t by simp
    then show ?thesis by blast
  qed
qed

lemma prime_factor_exists:
  fixes m :: nat
  assumes "1 < m"
  shows "\<exists>q. prime (int q) \<and> q dvd m"
proof -
  let ?P = "\<lambda>d. 2 \<le> d \<and> d dvd m"
  have "?P m" using assms by simp
  then have l: "?P (LEAST d. ?P d)" by (rule LeastI)
  define q where "q = (LEAST d. ?P d)"
  have q: "2 \<le> q" "q dvd m" using l by (simp_all add: q_def)
  have small: "\<forall>d. 2 \<le> d \<and> d < int q \<longrightarrow> \<not> d dvd int m"
  proof (intro allI impI)
    fix d :: int assume d: "2 \<le> d \<and> d < int q"
    show "\<not> d dvd int m"
    proof
      assume "d dvd int m"
      then have "nat d dvd m" using d by (metis int_dvd_int_iff int_nat_eq less_le_trans not_le zero_less_numeral order_less_imp_le dual_order.trans zero_le_numeral)
      moreover have "2 \<le> nat d" "nat d < q" using d by auto
      ultimately show False using not_less_Least[of "nat d" ?P] by (simp add: q_def)
    qed
  qed
  have "prime (int q)"
    using _ _ small by (rule least_divisor_prime) (use q in simp_all)
  then show ?thesis using q(2) by blast
qed

lemma prime_nat_dvd_mult:
  fixes q a b :: nat
  assumes "prime (int q)" "q dvd a * b"
  shows "q dvd a \<or> q dvd b"
proof -
  have "int q dvd int a * int b" using assms(2) by (metis int_dvd_int_iff of_nat_mult)
  from prime_dvd_mult[OF assms(1) this] show ?thesis by (simp only: int_dvd_int_iff)
qed

lemma prime_nat_dvd_power:
  fixes q a :: nat
  assumes "prime (int q)" "q dvd a ^ k"
  shows "q dvd a"
proof -
  have "int q dvd int a ^ k" using assms(2) by (metis int_dvd_int_iff of_nat_power)
  from prime_dvd_power[OF assms(1) this] show ?thesis by (simp only: int_dvd_int_iff)
qed

lemma prime_power_divisor:
  fixes q d :: nat
  assumes q: "prime (int q)" and d: "d dvd q ^ e" "d \<noteq> q ^ e"
  shows "0 < e \<and> d dvd q ^ (e - 1)"
proof -
  have q2: "2 \<le> q" using q by (simp add: prime_def)
  obtain c where c: "q ^ e = d * c" using d(1) by (auto simp: dvd_def)
  have "c \<noteq> 0" using c q2 by (metis mult_0_right power_not_zero not_numeral_le_zero)
  moreover have "c \<noteq> 1" using c d(2) by simp
  ultimately have "1 < c" by simp
  then obtain r where r: "prime (int r)" "r dvd c" using prime_factor_exists by blast
  have "r dvd q ^ e" using r(2) c by simp
  then have "r dvd q" using r(1) by (rule prime_nat_dvd_power[rotated])
  then have "int r dvd int q" by (simp add: int_dvd_int_iff)
  then have "int r = int q" using prime_divisors_of_prime[OF q] r(1) by blast
  then have "q dvd c" using r(2) by simp
  then obtain c' where c': "c = q * c'" by (auto simp: dvd_def)
  have e0: "0 < e"
  proof (rule ccontr)
    assume "\<not> 0 < e"
    then have "d * c = 1" using c by simp
    then show False using \<open>1 < c\<close> by simp
  qed
  then have "q * q ^ (e - 1) = q * (d * c')" using c c' by (cases e) (simp_all add: mult.left_commute)
  then have "q ^ (e - 1) = d * c'" using q2 by simp
  then show ?thesis using e0 by simp
qed

lemma mod_one_mult:
  fixes x y p :: int
  assumes "x mod p = 1"
  shows "(x * y) mod p = y mod p"
proof -
  have "(x * y) mod p = ((x mod p) * y) mod p" by (simp add: mod_mult_left_eq)
  then show ?thesis using assms by simp
qed

lemma prime_power_order_exists:
  fixes q e :: nat
  assumes p: "prime p" and q: "prime (int q)" and e: "0 < e" and dv: "q ^ e dvd nat (p - 1)"
  shows "\<exists>b. \<not> p dvd b \<and> is_order p b (q ^ e)"
proof -
  define n where "n = nat (p - 1)"
  have p1: "1 < p" using p by (simp add: prime_def)
  have n0: "0 < n" using p1 by (simp add: n_def)
  have q2: "2 \<le> q" using q by (simp add: prime_def)
  obtain t where t: "n = q ^ e * t" using dv by (auto simp: dvd_def n_def)
  have t0: "0 < t" using t n0 by (cases t) simp_all
  define N where "N = q ^ (e - 1) * t"
  have qe: "q ^ e = q * q ^ (e - 1)" using e by (cases e) simp_all
  have nN: "n = q * N" using t qe by (simp add: N_def)
  have N0: "0 < N" using t0 q2 by (simp add: N_def)
  have Nn: "N < n" using nN N0 q2 by simp
  have rb: "card {x \<in> {0..p - 1}. x ^ N mod p = 1} \<le> N"
    using p N0 by (rule power_roots_bound)
  have "\<exists>a\<in>{1..p - 1}. a ^ N mod p \<noteq> 1"
  proof (rule ccontr)
    assume "\<not> (\<exists>a\<in>{1..p - 1}. a ^ N mod p \<noteq> 1)"
    then have "{1..p - 1} \<subseteq> {x \<in> {0..p - 1}. x ^ N mod p = 1}" by auto
    moreover have "finite {x \<in> {0..p - 1}. x ^ N mod p = 1}"
      by (rule finite_subset[of _ "{0..p - 1}"]) auto
    ultimately have "card {1..p - 1} \<le> card {x \<in> {0..p - 1}. x ^ N mod p = 1}"
      by (intro card_mono)
    moreover have "card {1..p - 1} = n" using p1 by (simp add: n_def)
    ultimately show False using rb Nn by simp
  qed
  then obtain a where a: "1 \<le> a" "a \<le> p - 1" "a ^ N mod p \<noteq> 1" by auto
  have an: "\<not> p dvd a" using a(1,2) by (intro zdvd_not_zless) simp_all
  define b where "b = a ^ t"
  have bn: "\<not> p dvd b" unfolding b_def using prime_dvd_power[OF p] an by blast
  have "b ^ (q ^ e) = a ^ n" by (simp add: b_def t power_mult [symmetric] mult.commute)
  then have b1: "b ^ (q ^ e) mod p = 1" using fermat_little[OF p an] by (simp add: n_def)
  have bN: "b ^ (q ^ (e - 1)) = a ^ N" by (simp add: b_def N_def power_mult [symmetric] mult.commute)
  obtain d where d: "is_order p b d" using order_exists[OF p bn] by blast
  have ddv: "d dvd q ^ e" using d p1 b1 by (rule order_dvd)
  have "d = q ^ e"
  proof (rule ccontr)
    assume "d \<noteq> q ^ e"
    with prime_power_divisor[OF q ddv] have "d dvd q ^ (e - 1)" by simp
    then obtain c where c: "q ^ (e - 1) = d * c" by (auto simp: dvd_def)
    have "b ^ d mod p = 1" using d by (simp add: is_order_def)
    from power_mult_one[OF p1 this, of c] have "b ^ (q ^ (e - 1)) mod p = 1" by (simp only: c)
    then show False using a(3) bN by simp
  qed
  then show ?thesis using d bn by blast
qed

lemma order_mult_coprime:
  fixes a b p :: int and m k :: nat
  assumes p: "1 < p" and a: "is_order p a m" and b: "is_order p b k" and c: "coprime m k"
  shows "is_order p (a * b) (m * k)"
proof -
  have m: "0 < m" "a ^ m mod p = 1" and k: "0 < k" "b ^ k mod p = 1"
    using a b by (simp_all add: is_order_def)
  have am: "a ^ (m * j) mod p = 1" for j using p m(2) by (rule power_mult_one)
  have bk: "b ^ (k * j) mod p = 1" for j using p k(2) by (rule power_mult_one)
  have "(a * b) ^ (m * k) = a ^ (m * k) * b ^ (k * m)"
    by (simp add: power_mult_distrib mult.commute)
  then have one: "(a * b) ^ (m * k) mod p = 1"
    using am[of k] bk[of m] p by (simp add: mod_one_mult)
  have "(a * b) ^ j mod p \<noteq> 1" if j: "j \<in> {1..<m * k}" for j
  proof
    assume e: "(a * b) ^ j mod p = 1"
    have "(a * b) ^ (j * m) mod p = 1" using p e by (rule power_mult_one)
    moreover have "(a * b) ^ (j * m) = a ^ (m * j) * b ^ (j * m)"
      by (simp add: power_mult_distrib mult.commute)
    ultimately have "b ^ (j * m) mod p = 1" using am[of j] by (simp add: mod_one_mult)
    then have "k dvd j * m" using b p by (intro order_dvd)
    then have kj: "k dvd j" using c by (simp add: coprime_dvd_mult_left_iff coprime_commute)
    have "(a * b) ^ (j * k) mod p = 1" using p e by (rule power_mult_one)
    moreover have "(a * b) ^ (j * k) = b ^ (k * j) * a ^ (j * k)"
      by (simp add: power_mult_distrib mult.commute)
    ultimately have "a ^ (j * k) mod p = 1" using bk[of j] by (simp add: mod_one_mult)
    then have "m dvd j * k" using a p by (intro order_dvd)
    then have mj: "m dvd j" using c by (simp add: coprime_dvd_mult_left_iff)
    have "m * k dvd j" using mj kj c by (rule divides_mult)
    then have "m * k \<le> j" using j by (intro dvd_imp_le) simp_all
    then show False using j by simp
  qed
  then show ?thesis using m(1) k(1) one unfolding is_order_def by simp
qed

lemma order_exists_for_divisor:
  assumes p: "prime p"
  shows "0 < m \<Longrightarrow> m dvd nat (p - 1) \<Longrightarrow> \<exists>a. \<not> p dvd a \<and> is_order p a m"
proof (induction m rule: less_induct)
  case (less m)
  have p1: "1 < p" using p by (simp add: prime_def)
  show ?case
  proof (cases "m = 1")
    case True
    have "is_order p 1 1" using p1 by (simp add: is_order_def)
    moreover have "\<not> p dvd 1" using p1 by simp
    ultimately show ?thesis using True by blast
  next
    case False
    then have "1 < m" using less.prems(1) by simp
    then obtain q where q: "prime (int q)" "q dvd m" using prime_factor_exists by blast
    have q2: "2 \<le> q" using q(1) by (simp add: prime_def)
    from prime_power_split[OF q2 less.prems(1)]
    obtain e m' where s: "m = q ^ e * m'" "\<not> q dvd m'" by blast
    have e0: "0 < e" using s q(2) by (cases e) simp_all
    have m'0: "0 < m'" using s(1) less.prems(1) by (cases m') simp_all
    have "1 < q ^ e" using q2 e0 by (metis less_le_trans one_less_numeral_iff one_less_power semiring_norm(76))
    then have m'lt: "m' < m" using s(1) m'0 by simp
    have "m' dvd m" "q ^ e dvd m" using s(1) by simp_all
    then have dv: "m' dvd nat (p - 1)" "q ^ e dvd nat (p - 1)"
      using less.prems(2) dvd_trans by blast+
    from less.IH[OF m'lt m'0 dv(1)] obtain a where a: "\<not> p dvd a" "is_order p a m'" by blast
    from prime_power_order_exists[OF p q(1) e0 dv(2)]
    obtain b where b: "\<not> p dvd b" "is_order p b (q ^ e)" by blast
    have "\<not> int q dvd int m'" using s(2) by (simp add: int_dvd_int_iff)
    then have "coprime (int q) (int m')" using q(1) by (rule prime_coprime[rotated])
    then have "coprime q m'" by (simp add: coprime_int_iff)
    then have "coprime (q ^ e) m'" by (simp add: coprime_power_left_iff)
    from order_mult_coprime[OF p1 b(2) a(2) this] have "is_order p (b * a) m" by (simp add: s(1))
    moreover have "\<not> p dvd b * a" using prime_dvd_mult[OF p] a(1) b(1) by blast
    ultimately show ?thesis by blast
  qed
qed

lemma is_order_mod: "is_order p (a mod p) d = is_order p a d"
  by (simp add: is_order_def power_mod)

lemma primitive_root_exists:
  assumes p: "prime p"
  shows "\<exists>g. 1 \<le> g \<and> g \<le> p - 1 \<and> is_order p g (nat (p - 1))"
proof -
  have p1: "1 < p" using p by (simp add: prime_def)
  then have "0 < nat (p - 1)" by simp
  from order_exists_for_divisor[OF p this] obtain a
    where a: "\<not> p dvd a" "is_order p a (nat (p - 1))" by auto
  have "a mod p \<noteq> 0" using a(1) by (simp add: dvd_eq_mod_eq_0)
  moreover have "0 \<le> a mod p" "a mod p < p" using p1 by simp_all
  ultimately have "1 \<le> a mod p \<and> a mod p \<le> p - 1" by simp
  then show ?thesis using a(2) is_order_mod[of p a] by blast
qed

subsection \<open>The two generator searches\<close>

lemma order_full_criterion:
  assumes p: "prime p" and g: "\<not> p dvd g"
    and fs: "set fs = {q. prime q \<and> q dvd p - 1}"
  shows "(\<forall>f\<in>set fs. pow3 g ((p - 1) div f) p \<noteq> 1) = is_order p g (nat (p - 1))"
proof
  define n where "n = nat (p - 1)"
  have p1: "1 < p" using p by (simp add: prime_def)
  have n0: "0 < n" using p1 by (simp add: n_def)
  have fl: "g ^ n mod p = 1" using fermat_little[OF p g] by (simp add: n_def)
  {
    assume h: "\<forall>f\<in>set fs. pow3 g ((p - 1) div f) p \<noteq> 1"
    obtain d where d: "is_order p g d" using order_exists[OF p g] by blast
    have ddv: "d dvd n" using d p1 fl by (rule order_dvd)
    have "d = n"
    proof (rule ccontr)
      assume dn: "d \<noteq> n"
      obtain c where c: "n = d * c" using ddv by (auto simp: dvd_def)
      have "c \<noteq> 0" using c n0 by (cases c) simp_all
      moreover have "c \<noteq> 1" using c dn by simp
      ultimately have "1 < c" by simp
      then obtain r where r: "prime (int r)" "r dvd c" using prime_factor_exists by blast
      obtain c' where c': "c = r * c'" using r(2) by (auto simp: dvd_def)
      have r0: "0 < r" using r(1) by (simp add: prime_def)
      have rn: "r dvd n" using c c' by simp
      then have "int r dvd p - 1" using p1 by (metis int_dvd_int_iff n_def int_nat_eq less_imp_le diff_ge_0_iff_ge)
      then have "int r \<in> set fs" using fs r(1) by simp
      then have ne: "pow3 g ((p - 1) div int r) p \<noteq> 1" using h by blast
      have "(p - 1) div int r = int (n div r)" using p1 by (simp add: n_def zdiv_int)
      moreover have "n div r = d * c'" using c c' r0 by simp
      ultimately have "nat ((p - 1) div int r) = d * c'" by (simp only: nat_int)
      then have "pow3 g ((p - 1) div int r) p = g ^ (d * c') mod p"
        by (simp only: pow3_def)
      moreover have "g ^ d mod p = 1" using d by (simp add: is_order_def)
      ultimately show False using ne power_mult_one[OF p1, of g d c'] by simp
    qed
    then show "is_order p g (nat (p - 1))" using d by (simp add: n_def)
  }
  {
    assume o: "is_order p g (nat (p - 1))"
    show "\<forall>f\<in>set fs. pow3 g ((p - 1) div f) p \<noteq> 1"
    proof
      fix f assume "f \<in> set fs"
      then have f: "prime f" "f dvd p - 1" using fs by auto
      have f2: "2 \<le> f" using f(1) by (simp add: prime_def)
      obtain t where t: "p - 1 = f * t" using f(2) by (auto simp: dvd_def)
      have t0: "0 < t" using t p1 f2 by (metis diff_gt_0_iff_gt less_le_trans zero_less_mult_pos zero_less_numeral)
      have dv: "(p - 1) div f = t" using t f2 by simp
      have "t < p - 1" using t t0 f2 by (simp add: mult_less_cancel_right1) 
      then have "nat t \<in> {1..<nat (p - 1)}" using t0 by auto
      then have "g ^ nat t mod p \<noteq> 1" using o by (auto simp: is_order_def)
      then show "pow3 g ((p - 1) div f) p \<noteq> 1" by (simp add: dv pow3_def)
    qed
  }
qed

lemma primitive_root_ge_2:
  assumes p: "prime p" and p3: "2 < p"
  shows "\<exists>g. 2 \<le> g \<and> g \<le> p - 1 \<and> is_order p g (nat (p - 1))"
proof -
  from primitive_root_exists[OF p] obtain g
    where g: "1 \<le> g" "g \<le> p - 1" "is_order p g (nat (p - 1))" by blast
  have "g \<noteq> 1"
  proof
    assume "g = 1"
    moreover have "1 \<in> {1..<nat (p - 1)}" using p3 by auto
    ultimately show False using g(3) p3 by (auto simp: is_order_def)
  qed
  then have "2 \<le> g" using g(1) by simp
  then show ?thesis using g(2,3) by blast
qed

lemma find_generator_gamel_correct:
  assumes p: "prime p" and p3: "2 < p"
  shows "\<exists>g. find_generator_gamel p = Some g \<and> 2 \<le> g \<and> g \<le> p - 1
            \<and> is_order p g (nat (p - 1))"
proof -
  have "1 \<le> p - 1" using p3 by simp
  from prime_factors_spec[OF this] obtain fs
    where fs: "prime_factors (p - 1) = Some fs" "set fs = {q. prime q \<and> q dvd p - 1}" by blast
  let ?P = "\<lambda>g. \<forall>factor\<in>set fs. mod_pow g ((p - 1) div factor) p \<noteq> 1"
  have p0: "0 < p" using p3 by simp
  have nd: "\<not> p dvd g" if "2 \<le> g" "g \<le> p - 1" for g
    using that by (intro zdvd_not_zless) simp_all
  have crit: "?P g = is_order p g (nat (p - 1))" if "2 \<le> g" "g \<le> p - 1" for g
    using order_full_criterion[OF p nd[OF that] fs(2)] p0 by (simp add: mod_pow_pow3)
  from primitive_root_ge_2[OF p p3] obtain g0
    where g0: "2 \<le> g0" "g0 \<le> p - 1" "is_order p g0 (nat (p - 1))" by blast
  have "g0 \<in> set [2..p - 1]" "?P g0" using g0 crit by simp_all
  then have "find ?P [2..p - 1] \<noteq> None" by (auto simp: find_None_iff)
  then obtain g where f: "find ?P [2..p - 1] = Some g" by blast
  then have "g \<in> set [2..p - 1]" "?P g" by (auto simp: find_Some_iff)
  then have "2 \<le> g" "g \<le> p - 1" "is_order p g (nat (p - 1))" using crit by simp_all
  moreover have "find_generator_gamel p = Some g"
    using fs(1) f by (simp add: find_generator_gamel_def Let_def)
  ultimately show ?thesis by blast
qed





section \<open>What the generators return\<close>

lemma randint_Inr:
  "randint a b ds = Some (Inr v, ds') \<Longrightarrow> a \<le> v \<and> v \<le> b \<and> ds = v # ds'"
  by (auto simp: randint_def split: if_splits list.splits)

lemma randint_Inl:
  "randint a b ds = Some (Inl err, ds') \<Longrightarrow> b < a"
  by (auto simp: randint_def split: if_splits list.splits)

lemma rounds_length: "rounds k n d r ds = Some (v, ds') \<Longrightarrow> length ds' \<le> length ds"
proof (induction k arbitrary: ds)
  case 0
  then show ?case by (simp add: rreturn_def)
next
  case (Suc k)
  show ?case
  proof (cases "randint 2 (n - 2) ds")
    case None
    then show ?thesis using Suc.prems by (simp add: rbind_def)
  next
    case (Some res)
    obtain w ds1 where res: "res = (w, ds1)" by (cases res)
    show ?thesis
    proof (cases w)
      case (Inl err)
      then show ?thesis using Suc.prems Some res
        by (auto simp: rbind_def randint_def split: if_splits list.splits)
    next
      case (Inr a)
      then have l: "length ds1 < length ds" using Some res randint_Inr[of 2 "n - 2" ds a ds1] by auto
      have "rounds k n d r ds1 = Some (v, ds') \<or> (v = Inr False \<and> ds' = ds1)"
        using Suc.prems Some res Inr
        by (auto simp: rbind_def rreturn_def Let_def split: if_splits)
      then show ?thesis using Suc.IH[of ds1] l by auto
    qed
  qed
qed

lemma is_prime_sig_length:
  "is_prime_sig n k ds = Some (v, ds') \<Longrightarrow> length ds' \<le> length ds"
  by (auto simp: is_prime_sig_def rreturn_def split: if_splits option.splits dest: rounds_length)

lemma is_prime_gamel_length:
  "is_prime_gamel n k ds = Some (v, ds') \<Longrightarrow> length ds' \<le> length ds"
  by (auto simp: is_prime_gamel_def rreturn_def split: if_splits option.splits dest: rounds_length)

lemma is_prime_sig_True: "is_prime_sig n k ds = Some (Inr True, ds') \<Longrightarrow> 2 \<le> n"
  by (auto simp: is_prime_sig_def rreturn_def split: if_splits)

lemma is_prime_gamel_True: "is_prime_gamel n k ds = Some (Inr True, ds') \<Longrightarrow> 2 \<le> n"
  by (auto simp: is_prime_gamel_def rreturn_def split: if_splits)

lemma generate_prime_sig_result:
  "generate_prime_sig mn mx ds = Some (Inr v, ds') \<Longrightarrow> odd v \<and> mn \<le> v \<and> v \<le> mx + 1 \<and> 2 \<le> v"
proof (induction "length ds" arbitrary: ds rule: less_induct)
  case less
  from less.prems obtain p0 ds1 where r: "randint mn mx ds = Some (Inr p0, ds1)"
    by (subst (asm) generate_prime_sig.simps) (auto split: option.splits sum.splits prod.splits)
  define p where "p = (if p0 mod 2 = 0 then p0 + 1 else p0)"
  have p: "odd p" "mn \<le> p" "p \<le> mx + 1"
    using randint_Inr[OF r] by (auto simp: p_def)
  from less.prems r obtain b ds2 where i: "is_prime_sig p 5 ds1 = Some (Inr b, ds2)"
    by (subst (asm) generate_prime_sig.simps)
       (auto simp: p_def Let_def split: option.splits sum.splits prod.splits)
  show ?case
  proof (cases b)
    case True
    then have "v = p" using less.prems r i
      by (subst (asm) generate_prime_sig.simps) (auto simp: p_def Let_def)
    then show ?thesis using p is_prime_sig_True[of p 5 ds1 ds2] i True by simp
  next
    case False
    then have rec: "generate_prime_sig mn mx ds2 = Some (Inr v, ds')" using less.prems r i
      by (subst (asm) generate_prime_sig.simps) (auto simp: p_def Let_def)
    have "length ds2 < length ds"
      using is_prime_sig_length[OF i] randint_Inr[OF r] by auto
    from less.hyps[OF this rec] show ?thesis .
  qed
qed

lemma generate_prime_gamel_result:
  "generate_prime_gamel mn mx ds = Some (Inr v, ds') \<Longrightarrow> odd v \<and> mn \<le> v \<and> v \<le> mx + 1 \<and> 2 \<le> v"
proof (induction "length ds" arbitrary: ds rule: less_induct)
  case less
  from less.prems obtain p0 ds1 where r: "randint mn mx ds = Some (Inr p0, ds1)"
    by (subst (asm) generate_prime_gamel.simps) (auto split: option.splits sum.splits prod.splits)
  define p where "p = (if p0 mod 2 = 0 then p0 + 1 else p0)"
  have p: "odd p" "mn \<le> p" "p \<le> mx + 1"
    using randint_Inr[OF r] by (auto simp: p_def)
  from less.prems r obtain b ds2 where i: "is_prime_gamel p 5 ds1 = Some (Inr b, ds2)"
    by (subst (asm) generate_prime_gamel.simps)
       (auto simp: p_def Let_def split: option.splits sum.splits prod.splits)
  show ?case
  proof (cases b)
    case True
    then have "v = p" using less.prems r i
      by (subst (asm) generate_prime_gamel.simps) (auto simp: p_def Let_def)
    then show ?thesis using p is_prime_gamel_True[of p 5 ds1 ds2] i True by simp
  next
    case False
    then have rec: "generate_prime_gamel mn mx ds2 = Some (Inr v, ds')" using less.prems r i
      by (subst (asm) generate_prime_gamel.simps) (auto simp: p_def Let_def)
    have "length ds2 < length ds"
      using is_prime_gamel_length[OF i] randint_Inr[OF r] by auto
    from less.hyps[OF this rec] show ?thesis .
  qed
qed

lemma getrandbits_Inr:
  "getrandbits k ds = Some (Inr v, ds') \<Longrightarrow> 0 \<le> v \<and> ds = v # ds'"
  by (auto simp: getrandbits_def split: if_splits list.splits)

lemma getrandbits_no_error: "getrandbits k ds \<noteq> Some (Inl err, ds')"
  by (auto simp: getrandbits_def split: if_splits list.splits)

lemma generate_prime_bits_result:
  "generate_prime_bits bits ds = Some (Inr v, ds') \<Longrightarrow> odd v \<and> 3 \<le> v"
proof (induction "length ds" arbitrary: ds rule: less_induct)
  case less
  from less.prems obtain p0 ds1 where r: "getrandbits bits ds = Some (Inr p0, ds1)"
    by (subst (asm) generate_prime_bits.simps) (auto split: option.splits sum.splits prod.splits)
  define p where "p = p0 OR 1"
  have p: "odd p" by (simp add: p_def even_or_iff)
  from less.prems r obtain b ds2 where i: "is_prime_sig p 5 ds1 = Some (Inr b, ds2)"
    by (subst (asm) generate_prime_bits.simps)
       (auto simp: p_def Let_def split: option.splits sum.splits prod.splits)
  show ?case
  proof (cases b)
    case True
    then have "v = p" using less.prems r i
      by (subst (asm) generate_prime_bits.simps) (auto simp: p_def Let_def)
    moreover have "2 \<le> p" using is_prime_sig_True[of p 5 ds1 ds2] i True by simp
    moreover have "p \<noteq> 2" using p by auto
    ultimately show ?thesis using p by simp
  next
    case False
    then have rec: "generate_prime_bits bits ds2 = Some (Inr v, ds')" using less.prems r i
      by (subst (asm) generate_prime_bits.simps) (auto simp: p_def Let_def)
    have "length ds2 < length ds"
      using is_prime_sig_length[OF i] getrandbits_Inr[OF r] by auto
    from less.hyps[OF this rec] show ?thesis .
  qed
qed

lemma choose_e_result:
  "choose_e e phi ds = Some (Inr v, ds') \<Longrightarrow> 0 \<le> e \<Longrightarrow> 0 \<le> phi \<Longrightarrow> gcd v phi = 1 \<and> 0 \<le> v"
proof (induction ds arbitrary: e)
  case Nil
  then show ?case using gcd_loop_gcd[of e phi]
    by (subst (asm) choose_e.simps)
       (auto simp: randrange_def randint_def split: if_splits)
next
  case (Cons d ds)
  show ?case
  proof (cases "gcd_loop e phi \<noteq> 1")
    case False
    then show ?thesis using Cons.prems gcd_loop_gcd[of e phi]
      by (subst (asm) choose_e.simps) auto
  next
    case True
    then have "choose_e d phi ds = Some (Inr v, ds') \<and> 2 \<le> d"
      using Cons.prems(1)
      by (subst (asm) choose_e.simps)
         (auto simp: randrange_def randint_def split: if_splits)
    then show ?thesis using Cons.IH[of d] Cons.prems(3) by simp
  qed
qed

lemma mod_inverse_rsa_value:
  assumes e: "0 \<le> e" and phi: "1 < phi" and g: "gcd e phi = 1"
  shows "\<exists>d. mod_inverse_rsa e phi = Inr d \<and> 0 \<le> d \<and> d < phi \<and> (e * d) mod phi = 1"
proof -
  obtain g' x y where eg: "extended_gcd e phi = (g', x, y)" by (metis prod_cases3)
  have "g' = 1" using extended_gcd_fst[of e phi] e phi eg g by simp
  then have e1: "extended_gcd e phi = (1, x, y)" using eg by simp
  from mod_inverse_value[OF phi e1] show ?thesis
    using e1 by (simp add: mod_inverse_rsa_def)
qed

lemma mod_inverse_rsa_Inr:
  assumes "mod_inverse_rsa e phi = Inr d" "0 \<le> e" "1 < phi" "gcd e phi = 1"
  shows "0 \<le> d \<and> d < phi \<and> (e * d) mod phi = 1"
  using mod_inverse_rsa_value[OF assms(2,3,4)] assms(1) by auto

lemma generate_keypair_rsa_shape:
  assumes "generate_keypair_rsa bits ds = Some (Inr keys, ds')"
  shows "\<exists>p q e d. 3 \<le> p \<and> 3 \<le> q \<and> public_key keys = (e, p * q) \<and> private_key keys = (d, p * q)
            \<and> 0 \<le> e \<and> 0 \<le> d \<and> (e * d) mod ((p - 1) * (q - 1)) = 1"
proof -
  from assms obtain p ds1 where p: "generate_prime_bits (bits div 2) ds = Some (Inr p, ds1)"
    by (auto simp: generate_keypair_rsa_def rbind_def split: option.splits sum.splits prod.splits)
  from assms p obtain q ds2 where q: "generate_prime_bits (bits div 2) ds1 = Some (Inr q, ds2)"
    by (auto simp: generate_keypair_rsa_def rbind_def split: option.splits sum.splits prod.splits)
  define phi where "phi = (p - 1) * (q - 1)"
  from assms p q obtain e ds3 where e: "choose_e 65537 phi ds2 = Some (Inr e, ds3)"
    by (auto simp: generate_keypair_rsa_def rbind_def Let_def phi_def
        split: option.splits sum.splits prod.splits)
  from assms p q e obtain d where d: "mod_inverse_rsa e phi = Inr d"
    and k: "keys = \<lparr>public_key = (e, p * q), private_key = (d, p * q)\<rparr>"
    by (auto simp: generate_keypair_rsa_def rbind_def rreturn_def Let_def phi_def
        split: option.splits sum.splits prod.splits)
  have p3: "3 \<le> p" and q3: "3 \<le> q"
    using generate_prime_bits_result[OF p] generate_prime_bits_result[OF q] by simp_all
  have "2 * 2 \<le> (p - 1) * (q - 1)" using p3 q3 by (intro mult_mono) simp_all
  then have phi1: "1 < phi" by (simp add: phi_def)
  have ge: "gcd e phi = 1" "0 \<le> e" using choose_e_result[OF e] phi1 by simp_all
  from mod_inverse_rsa_Inr[OF d ge(2) phi1 ge(1)] show ?thesis
    using p3 q3 k ge(2) by (auto simp: phi_def)
qed

lemma generate_large_prime_result:
  "generate_large_prime s e ds = Some (Inr v, ds')
   \<Longrightarrow> prime v \<and> s \<le> v \<and> v \<le> e \<and> length ds' < length ds"
proof (induction ds)
  case Nil
  then show ?case
    by (subst (asm) generate_large_prime.simps) (auto simp: randint_def split: if_splits)
next
  case (Cons d ds)
  show ?case
  proof (cases "prime d")
    case True
    then show ?thesis using Cons.prems
      by (subst (asm) generate_large_prime.simps) (auto simp: randint_def split: if_splits)
  next
    case False
    then have "generate_large_prime s e ds = Some (Inr v, ds')" using Cons.prems
      by (subst (asm) generate_large_prime.simps) (auto simp: randint_def split: if_splits)
    then show ?thesis using Cons.IH by simp
  qed
qed

lemma redraw_prime2_result:
  "redraw_prime2 prime1 prime2 ds = Some (Inr v, ds') \<Longrightarrow> prime prime2 \<Longrightarrow> 1000 \<le> prime2
   \<Longrightarrow> prime v \<and> 1000 \<le> v \<and> v \<noteq> prime1"
proof (induction "length ds" arbitrary: ds prime2 rule: less_induct)
  case less
  show ?case
  proof (cases "prime2 = prime1")
    case False
    then show ?thesis using less.prems
      by (subst (asm) redraw_prime2.simps) auto
  next
    case True
    then obtain p2 ds1 where g: "generate_large_prime 1000 10000 ds = Some (Inr p2, ds1)"
      and r: "redraw_prime2 prime1 p2 ds1 = Some (Inr v, ds')"
      using less.prems(1)
      by (subst (asm) redraw_prime2.simps) (auto split: option.splits sum.splits prod.splits)
    from generate_large_prime_result[OF g] less.hyps[OF _ r] show ?thesis by simp
  qed
qed

lemma redraw_e_result:
  "redraw_e e phi ds = Some (Inr v, ds') \<Longrightarrow> 0 \<le> e \<Longrightarrow> gcd v phi = 1 \<and> 0 \<le> v"
proof (induction ds arbitrary: e)
  case Nil
  then show ?case
    by (subst (asm) redraw_e.simps) (auto simp: randint_def split: if_splits)
next
  case (Cons d ds)
  show ?case
  proof (cases "gcd e phi \<noteq> 1")
    case False
    then show ?thesis using Cons.prems by (subst (asm) redraw_e.simps) auto
  next
    case True
    then have "redraw_e d phi ds = Some (Inr v, ds') \<and> 2 \<le> d"
      using Cons.prems(1)
      by (subst (asm) redraw_e.simps) (auto simp: randint_def split: if_splits)
    then show ?thesis using Cons.IH[of d] by simp
  qed
qed

lemma generate_rsa_keys_valid:
  assumes "generate_rsa_keys ds = Some (Inr (pub, priv), ds')"
  shows "\<exists>p q e d. prime p \<and> prime q \<and> p \<noteq> q \<and> pub = (e, p * q) \<and> priv = (d, p * q)
            \<and> 0 \<le> e \<and> 0 \<le> d \<and> (e * d) mod ((p - 1) * (q - 1)) = 1"
proof -
  from assms obtain p ds1 where p: "generate_large_prime 1000 10000 ds = Some (Inr p, ds1)"
    by (auto simp: generate_rsa_keys_def rbind_def split: option.splits sum.splits prod.splits)
  from assms p obtain q0 ds2 where q0: "generate_large_prime 1000 10000 ds1 = Some (Inr q0, ds2)"
    by (auto simp: generate_rsa_keys_def rbind_def split: option.splits sum.splits prod.splits)
  from assms p q0 obtain q ds3 where q: "redraw_prime2 p q0 ds2 = Some (Inr q, ds3)"
    by (auto simp: generate_rsa_keys_def rbind_def split: option.splits sum.splits prod.splits)
  let ?phi = "(p - 1) * (q - 1)"
  from assms p q0 q obtain e ds4
    where e: "(if gcd 65537 ?phi \<noteq> 1
               then rbind (randint 2 (?phi - 1)) (\<lambda>e. redraw_e e ?phi) ds3
               else rreturn 65537 ds3) = Some (Inr e, ds4)"
    by (auto simp: generate_rsa_keys_def rbind_def[of "generate_large_prime 1000 10000"]
        rbind_def[of "redraw_prime2 p q0"] rbind_def[of "\<lambda>ds. if _ ds then _ ds else _ ds"]
        Let_def split: option.splits sum.splits prod.splits)
  from assms p q0 q e obtain d where d: "mod_inverse_rsa e ?phi = Inr d"
    and k: "pub = (e, p * q)" "priv = (d, p * q)"
    by (auto simp: generate_rsa_keys_def rbind_def[of "generate_large_prime 1000 10000"]
        rbind_def[of "redraw_prime2 p q0"] rbind_def[of "\<lambda>ds. if _ ds then _ ds else _ ds"]
        rreturn_def Let_def split: option.splits sum.splits prod.splits)
  have pp: "prime p" "1000 \<le> p" using generate_large_prime_result[OF p] by simp_all
  have "prime q0" "1000 \<le> q0" using generate_large_prime_result[OF q0] by simp_all
  from redraw_prime2_result[OF q this] have qq: "prime q" "1000 \<le> q" "q \<noteq> p" by simp_all
  have "2 * 2 \<le> (p - 1) * (q - 1)" using pp(2) qq(2) by (intro mult_mono) simp_all
  then have phi1: "1 < ?phi" by simp
  have ge: "gcd e ?phi = 1 \<and> 0 \<le> e"
  proof (cases "gcd 65537 ?phi \<noteq> 1")
    case False
    then show ?thesis using e by (simp add: rreturn_def)
  next
    case True
    then obtain e0 ds5 where "randint 2 (?phi - 1) ds3 = Some (Inr e0, ds5)"
      "redraw_e e0 ?phi ds5 = Some (Inr e, ds4)"
      using e by (auto simp: rbind_def split: option.splits sum.splits prod.splits)
    then show ?thesis using redraw_e_result[of e0 ?phi ds5 e ds4] randint_Inr[of 2 "?phi - 1" ds3 e0 ds5]
      by simp
  qed
  from mod_inverse_rsa_Inr[OF d _ phi1] ge have "0 \<le> d \<and> (e * d) mod ?phi = 1" by simp
  then show ?thesis using pp(1) qq(1,3) k ge by auto
qed


lemma generate_elgamal_keys_valid:
  assumes gen: "generate_elgamal_keys min_prime max_prime ds = Some (Inr keys, ds')"
    and pr: "prime (key_p keys)"
  shows "2 \<le> key_g keys \<and> key_g keys \<le> key_p keys - 1
         \<and> is_order (key_p keys) (key_g keys) (nat (key_p keys - 1))
         \<and> 1 \<le> key_x keys \<and> key_x keys \<le> key_p keys - 2
         \<and> key_y keys = mod_pow (key_g keys) (key_x keys) (key_p keys)"
proof -
  from gen obtain p ds1 where p: "generate_prime_gamel min_prime max_prime ds = Some (Inr p, ds1)"
    by (auto simp: generate_elgamal_keys_def rbind_def split: option.splits sum.splits prod.splits)
  from gen p obtain g where g: "find_generator_gamel p = Some g"
    by (auto simp: generate_elgamal_keys_def rbind_def split: option.splits sum.splits prod.splits)
  from gen p g obtain x ds2 where x: "randint 1 (p - 2) ds1 = Some (Inr x, ds2)"
    and k: "keys = \<lparr>key_p = p, key_g = g, key_y = mod_pow g x p, key_x = x\<rparr>"
    by (auto simp: generate_elgamal_keys_def rbind_def rreturn_def Let_def
        split: option.splits sum.splits prod.splits)
  have "odd p" "2 \<le> p" using generate_prime_gamel_result[OF p] by simp_all
  then have p3: "2 < p" by (cases "p = 2") auto
  have "prime p" using pr k by simp
  from find_generator_gamel_correct[OF this p3] g
  have "2 \<le> g \<and> g \<le> p - 1 \<and> is_order p g (nat (p - 1))" by simp
  then show ?thesis using k randint_Inr[OF x] by simp
qed

text \<open>
  What \<open>generate_prime(min_val, max_val)\<close> of Elgamelsignature.py and of gamel.py does
  guarantee: whenever it returns, the value is odd and lies in
  \<open>[min_val, max_val + 1]\<close>.
\<close>

theorem generate_prime_result:
  "(generate_prime_sig min_val max_val ds = Some (Inr v, ds')
      \<longrightarrow> odd v \<and> min_val \<le> v \<and> v \<le> max_val + 1)
   \<and> (generate_prime_gamel min_val max_val ds = Some (Inr v, ds')
      \<longrightarrow> odd v \<and> min_val \<le> v \<and> v \<le> max_val + 1)"
  using generate_prime_sig_result[of min_val max_val ds v ds']
    generate_prime_gamel_result[of min_val max_val ds v ds'] by blast

theorem generate_prime_result_witness:
  "generate_prime_sig 10 12 [11, 2, 2, 2, 2, 2] = Some (Inr 11, [])
   \<and> generate_prime_gamel 10 12 [11, 2, 2, 2, 2, 2] = Some (Inr 11, [])
   \<and> odd (11::int) \<and> (10::int) \<le> 11 \<and> (11::int) \<le> 12 + 1"
proof -
  have e: "generate_prime_sig 10 12 [11, 2, 2, 2, 2, 2] = Some (Inr 11, [])"
    "generate_prime_gamel 10 12 [11, 2, 2, 2, 2, 2] = Some (Inr 11, [])" by code_simp+
  from generate_prime_result[of 10 12 "[11, 2, 2, 2, 2, 2]" 11 "[]"] e show ?thesis by blast
qed

text \<open>
  \<open>generate_rsa_keys\<close> of rsa (1).py draws again while the second prime equals the
  first: whenever it returns, the modulus is the product of two distinct primes and the
  exponents are inverse to each other modulo \<open>(p - 1) * (q - 1)\<close>.
\<close>

theorem generate_rsa_keys_distinct_primes:
  "generate_rsa_keys ds = Some (Inr (pub, priv), ds')
   \<Longrightarrow> \<exists>p q e d. prime p \<and> prime q \<and> p \<noteq> q \<and> pub = (e, p * q) \<and> priv = (d, p * q)
            \<and> 0 \<le> e \<and> 0 \<le> d \<and> (e * d) mod ((p - 1) * (q - 1)) = 1"
  by (rule generate_rsa_keys_valid)

theorem generate_rsa_keys_distinct_primes_witness:
  "generate_rsa_keys [1009, 1009, 1013] = Some (Inr ((65537, 1022117), (832193, 1022117)), [])
   \<and> (\<exists>p q e d. prime p \<and> prime q \<and> p \<noteq> q \<and> (65537, 1022117) = (e, p * q)
          \<and> (832193, 1022117) = (d, p * q)
          \<and> 0 \<le> e \<and> 0 \<le> d \<and> (e * d) mod ((p - 1) * (q - 1)) = (1::int))"
proof -
  have e: "generate_rsa_keys [1009, 1009, 1013]
             = Some (Inr ((65537, 1022117), (832193, 1022117)), [])" by code_simp
  from generate_rsa_keys_distinct_primes[OF e] e show ?thesis by blast
qed

text \<open>
  \<open>generate_keypair\<close> of RSAsignature.py: whenever it returns, the modulus is the
  product \<open>p * q\<close> of the two odd values it drew and \<open>e * d mod ((p - 1) * (q - 1)) = 1\<close>.
  Nothing makes \<open>p\<close> and \<open>q\<close> different, or prime.
\<close>

theorem generate_keypair_rsa_key_equation:
  "generate_keypair_rsa bits ds = Some (Inr keys, ds')
   \<Longrightarrow> \<exists>p q e d. 3 \<le> p \<and> 3 \<le> q \<and> public_key keys = (e, p * q) \<and> private_key keys = (d, p * q)
            \<and> 0 \<le> e \<and> 0 \<le> d \<and> (e * d) mod ((p - 1) * (q - 1)) = 1"
  by (rule generate_keypair_rsa_shape)

theorem generate_keypair_rsa_key_equation_witness:
  "\<exists>p q e d. 3 \<le> p \<and> 3 \<le> q \<and> (65537, 63001) = (e, p * q) \<and> (35973, 63001) = (d, p * q)
            \<and> 0 \<le> e \<and> 0 \<le> d \<and> (e * d) mod ((p - 1) * (q - 1)) = (1::int)"
proof -
  have e: "generate_keypair_rsa 16 [251, 2, 2, 2, 2, 2, 251, 2, 2, 2, 2, 2]
     = Some (Inr \<lparr>public_key = (65537, 63001), private_key = (35973, 63001)\<rparr>, [])"
    by code_simp
  from generate_keypair_rsa_key_equation[OF e] show ?thesis by simp
qed

end
